theory Spec2Isabelle
  imports Main "HOL-Library.Option_ord" "HOL-Library.Multiset"
begin

section \<open>Aerodrome pool tracker: event indexer and analytics reader\<close>

text \<open>
  A shallow embedding of \<^verbatim>\<open>pool_events_indexer.py\<close> (the block-range scanner writing
  the SQLite event store) and of \<^verbatim>\<open>pool_events_reader.py\<close> (the read-only queries
  on top of that store).

  Python integers are unbounded, so block numbers, timestamps and decoded token amounts
  are \<open>int\<close>. The amount columns of the store are TEXT columns: the indexer writes
  \<^verbatim>\<open>str(n)\<close> of the decoded \<^verbatim>\<open>uint256\<close> value \<open>n\<close>, and the reader applies
  \<^verbatim>\<open>int(...)\<close> to the text it reads back.
\<close>

subsection \<open>Exceptions\<close>

datatype error =
    RPCError          \<comment> \<open>any exception raised by a web3 call\<close>
  | InvalidAddress    \<comment> \<open>\<^verbatim>\<open>to_checksum_address\<close> rejecting its argument\<close>
  | OutOfRange        \<comment> \<open>\<^verbatim>\<open>datetime.utcfromtimestamp\<close> outside years 1..9999\<close>
  | ValueError        \<comment> \<open>\<^verbatim>\<open>int(...)\<close> rejecting a text\<close>
  | ArithmeticError   \<comment> \<open>\<^verbatim>\<open>a / b\<close> raising \<^verbatim>\<open>OverflowError\<close> or \<^verbatim>\<open>ZeroDivisionError\<close>\<close>

subsection \<open>Decoded logs\<close>

text \<open>The \<^verbatim>\<open>args\<close> of a decoded log, per event of \<^verbatim>\<open>POOL_EVENTS_ABI\<close>.\<close>

record liquidity_args =
  la_sender :: string
  la_amount0 :: int
  la_amount1 :: int
  la_to :: string
  la_liquidity :: int

record swap_args =
  sa_sender :: string
  sa_recipient :: string
  sa_amount0In :: int
  sa_amount1In :: int
  sa_amount0Out :: int
  sa_amount1Out :: int

record claim_args =
  ca_sender :: string
  ca_recipient :: string
  ca_amount0 :: int
  ca_amount1 :: int

text \<open>
  A decoded log \<^verbatim>\<open>ev\<close>: \<^verbatim>\<open>ev["blockNumber"]\<close>, \<^verbatim>\<open>ev["transactionHash"].hex()\<close> (kept as
  the hexadecimal text) and \<^verbatim>\<open>ev["args"]\<close>.
\<close>

record 'a event_log =
  blockNumber :: int
  transactionHash :: string
  args :: 'a

subsection \<open>The chain as seen through web3\<close>

text \<open>
  Every web3 call may raise and may answer differently each time it is made, so the
  node is a state \<open>'w\<close> that each call reads and advances. \<open>to_checksum_address\<close> is
  a pure function of its argument.
\<close>

record 'w rpc =
  eth_block_number :: "'w \<Rightarrow> (error + int) \<times> 'w"
  eth_get_block_timestamp :: "int \<Rightarrow> 'w \<Rightarrow> (error + int) \<times> 'w"
  get_logs_Mint :: "string \<Rightarrow> int \<Rightarrow> int \<Rightarrow> 'w \<Rightarrow> (error + liquidity_args event_log list) \<times> 'w"
  get_logs_Burn :: "string \<Rightarrow> int \<Rightarrow> int \<Rightarrow> 'w \<Rightarrow> (error + liquidity_args event_log list) \<times> 'w"
  get_logs_Swap :: "string \<Rightarrow> int \<Rightarrow> int \<Rightarrow> 'w \<Rightarrow> (error + swap_args event_log list) \<times> 'w"
  get_logs_Claim :: "string \<Rightarrow> int \<Rightarrow> int \<Rightarrow> 'w \<Rightarrow> (error + claim_args event_log list) \<times> 'w"
  to_checksum_address :: "string \<Rightarrow> error + string"

subsection \<open>The event store\<close>

record liquidity_row =
  le_pool_address :: string
  le_event_type :: string
  le_token0_amount :: string
  le_token1_amount :: string
  le_provider_address :: string
  le_tx_hash :: string
  le_block_number :: int
  le_block_time :: int

record swap_row =
  sw_pool_address :: string
  sw_sender :: string
  sw_recipient :: string
  sw_amount0_in :: string
  sw_amount1_in :: string
  sw_amount0_out :: string
  sw_amount1_out :: string
  sw_tx_hash :: string
  sw_block_number :: int
  sw_block_time :: int

record claim_row =
  fc_pool_address :: string
  fc_sender :: string
  fc_recipient :: string
  fc_token0_fee :: string
  fc_token1_fee :: string
  fc_tx_hash :: string
  fc_block_number :: int
  fc_block_time :: int

text \<open>
  The four tables of \<^verbatim>\<open>init_db\<close>. A table is the list of its rows in insertion order
  (the AUTOINCREMENT id is the position); \<open>indexer_state\<close> is the single optional row
  with \<^verbatim>\<open>id = 1\<close>, holding \<^verbatim>\<open>last_block\<close>.
\<close>

record tables =
  pool_liquidity_events :: "liquidity_row list"
  pool_swaps :: "swap_row list"
  pool_fee_claims :: "claim_row list"
  indexer_state :: "int option"

text \<open>
  A \<^verbatim>\<open>sqlite3\<close> connection: statements change the connection's \<open>working\<close> view inside
  an implicitly opened transaction, \<^verbatim>\<open>conn.commit()\<close> makes the view durable, and
  closing the connection (or ending the process) keeps only what was committed.
\<close>

record conn =
  committed :: tables
  working :: tables

definition connect :: "tables \<Rightarrow> conn" where
  "connect db = \<lparr>committed = db, working = db\<rparr>"

definition commit :: "conn \<Rightarrow> conn" where
  "commit c = c\<lparr>committed := working c\<rparr>"

definition close :: "conn \<Rightarrow> tables" where
  "close c = committed c"

definition init_db :: "conn \<Rightarrow> conn" where
  \<comment> \<open>\<^verbatim>\<open>CREATE TABLE IF NOT EXISTS\<close> four times, then commit; an absent table is an empty one\<close>
  "init_db c = commit c"

subsection \<open>Checkpoint\<close>

definition set_last_block :: "int \<Rightarrow> conn \<Rightarrow> conn" where
  \<comment> \<open>\<^verbatim>\<open>INSERT OR REPLACE INTO indexer_state (id, last_block) VALUES (1, ?)\<close>\<close>
  "set_last_block b c = c\<lparr>working := (working c)\<lparr>indexer_state := Some b\<rparr>\<rparr>"

definition get_start_block :: "'w rpc \<Rightarrow> int \<Rightarrow> conn \<Rightarrow> 'w \<Rightarrow> (error + int) \<times> conn \<times> 'w" where
  "get_start_block r default_lookback_blocks c w =
     (let row = indexer_state (working c) in
      case eth_block_number r w of
        (Inl e, w') \<Rightarrow> (Inl e, c, w')
      | (Inr current_block, w') \<Rightarrow>
          (case row of
             None \<Rightarrow>
               (let start_block = max 0 (current_block - default_lookback_blocks)
                in (Inr start_block, commit (set_last_block start_block c), w'))
           | Some last_block \<Rightarrow> (Inr last_block, c, w')))"

definition update_last_block :: "conn \<Rightarrow> int \<Rightarrow> conn" where
  "update_last_block c last_block = commit (set_last_block last_block c)"

definition get_block_timestamp :: "'w rpc \<Rightarrow> int \<Rightarrow> 'w \<Rightarrow> (error + int) \<times> 'w" where
  "get_block_timestamp r block_number w = eth_get_block_timestamp r block_number w"

subsection \<open>Indexing one pool over one block range\<close>

text \<open>\<^verbatim>\<open>str(n)\<close> of an integer: its decimal digits, after a minus sign when negative.\<close>

function str_nat :: "nat \<Rightarrow> string" where
  "str_nat n = (if n < 10 then [char_of (48 + n)] else str_nat (n div 10) @ [char_of (48 + n mod 10)])"
  by pat_completeness auto
termination
  by (relation "measure id") auto

declare str_nat.simps [simp del]

definition str :: "int \<Rightarrow> string" where
  "str i = (if i < 0 then CHR ''-'' # str_nat (nat (- i)) else str_nat (nat i))"

definition lower_char :: "char \<Rightarrow> char" where
  "lower_char ch =
     (let n = (of_char ch :: nat) in if 65 \<le> n \<and> n \<le> 90 then char_of (n + 32) else ch)"

definition lower :: "string \<Rightarrow> string" where
  \<comment> \<open>\<^verbatim>\<open>str.lower()\<close> on the ASCII text of an address\<close>
  "lower s = map lower_char s"

text \<open>The tuple bound to the placeholders of each \<^verbatim>\<open>INSERT\<close>.\<close>

definition liquidity_values :: "string \<Rightarrow> string \<Rightarrow> liquidity_args event_log \<Rightarrow> int \<Rightarrow> liquidity_row" where
  "liquidity_values pool_address event_type ev ts =
     \<lparr>le_pool_address = lower pool_address,
      le_event_type = event_type,
      le_token0_amount = str (la_amount0 (args ev)),
      le_token1_amount = str (la_amount1 (args ev)),
      le_provider_address = la_sender (args ev),
      le_tx_hash = transactionHash ev,
      le_block_number = blockNumber ev,
      le_block_time = ts\<rparr>"

definition swap_values :: "string \<Rightarrow> swap_args event_log \<Rightarrow> int \<Rightarrow> swap_row" where
  "swap_values pool_address ev ts =
     \<lparr>sw_pool_address = lower pool_address,
      sw_sender = sa_sender (args ev),
      sw_recipient = sa_recipient (args ev),
      sw_amount0_in = str (sa_amount0In (args ev)),
      sw_amount1_in = str (sa_amount1In (args ev)),
      sw_amount0_out = str (sa_amount0Out (args ev)),
      sw_amount1_out = str (sa_amount1Out (args ev)),
      sw_tx_hash = transactionHash ev,
      sw_block_number = blockNumber ev,
      sw_block_time = ts\<rparr>"

definition claim_values :: "string \<Rightarrow> claim_args event_log \<Rightarrow> int \<Rightarrow> claim_row" where
  "claim_values pool_address ev ts =
     \<lparr>fc_pool_address = lower pool_address,
      fc_sender = ca_sender (args ev),
      fc_recipient = ca_recipient (args ev),
      fc_token0_fee = str (ca_amount0 (args ev)),
      fc_token1_fee = str (ca_amount1 (args ev)),
      fc_tx_hash = transactionHash ev,
      fc_block_number = blockNumber ev,
      fc_block_time = ts\<rparr>"

definition insert_liquidity :: "string \<Rightarrow> string \<Rightarrow> liquidity_args event_log \<Rightarrow> int \<Rightarrow> conn \<Rightarrow> conn" where
  \<comment> \<open>\<^verbatim>\<open>INSERT INTO pool_liquidity_events (...) VALUES (?, 'ADD' or 'REMOVE', ?, ?, ?, ?, ?, ?)\<close>\<close>
  "insert_liquidity pool_address event_type ev ts c =
     c\<lparr>working := (working c)\<lparr>pool_liquidity_events :=
          pool_liquidity_events (working c) @ [liquidity_values pool_address event_type ev ts]\<rparr>\<rparr>"

definition insert_swap :: "string \<Rightarrow> swap_args event_log \<Rightarrow> int \<Rightarrow> conn \<Rightarrow> conn" where
  \<comment> \<open>\<^verbatim>\<open>INSERT INTO pool_swaps (...) VALUES (?, ?, ?, ?, ?, ?, ?, ?, ?, ?)\<close>\<close>
  "insert_swap pool_address ev ts c =
     c\<lparr>working := (working c)\<lparr>pool_swaps :=
          pool_swaps (working c) @ [swap_values pool_address ev ts]\<rparr>\<rparr>"

definition insert_claim :: "string \<Rightarrow> claim_args event_log \<Rightarrow> int \<Rightarrow> conn \<Rightarrow> conn" where
  \<comment> \<open>\<^verbatim>\<open>INSERT INTO pool_fee_claims (...) VALUES (?, ?, ?, ?, ?, ?, ?, ?)\<close>\<close>
  "insert_claim pool_address ev ts c =
     c\<lparr>working := (working c)\<lparr>pool_fee_claims :=
          pool_fee_claims (working c) @ [claim_values pool_address ev ts]\<rparr>\<rparr>"

text \<open>
  The body shared by the four \<^verbatim>\<open>for ev in ..._events\<close> loops: look the block's
  timestamp up, then execute the INSERT. A failing lookup raises out of the loop; the
  rows inserted so far stay in the open transaction.
\<close>

fun for_each_event ::
  "'w rpc \<Rightarrow> ('a event_log \<Rightarrow> int \<Rightarrow> conn \<Rightarrow> conn) \<Rightarrow> 'a event_log list \<Rightarrow> conn \<Rightarrow> 'w
     \<Rightarrow> error option \<times> conn \<times> 'w" where
  "for_each_event r ins [] c w = (None, c, w)"
| "for_each_event r ins (ev # evs) c w =
     (case get_block_timestamp r (blockNumber ev) w of
        (Inl e, w') \<Rightarrow> (Some e, c, w')
      | (Inr ts, w') \<Rightarrow> for_each_event r ins evs (ins ev ts c) w')"

definition index_kind ::
  "'w rpc \<Rightarrow> ('w \<Rightarrow> (error + 'a event_log list) \<times> 'w) \<Rightarrow> ('a event_log \<Rightarrow> int \<Rightarrow> conn \<Rightarrow> conn)
     \<Rightarrow> conn \<Rightarrow> 'w \<Rightarrow> error option \<times> conn \<times> 'w" where
  \<comment> \<open>one \<^verbatim>\<open>get_logs\<close> call followed by its loop\<close>
  "index_kind r fetch ins c w =
     (case fetch w of
        (Inl e, w') \<Rightarrow> (Some e, c, w')
      | (Inr events, w') \<Rightarrow> for_each_event r ins events c w')"

definition index_pool_events ::
  "'w rpc \<Rightarrow> conn \<Rightarrow> string \<Rightarrow> int \<Rightarrow> int \<Rightarrow> 'w \<Rightarrow> error option \<times> conn \<times> 'w" where
  "index_pool_events r c pool_address from_block to_block w =
     (case to_checksum_address r pool_address of
        Inl e \<Rightarrow> (Some e, c, w)
      | Inr pool \<Rightarrow>
     (case index_kind r (get_logs_Mint r pool from_block to_block)
             (insert_liquidity pool_address ''ADD'') c w of
        (Some e, c1, w1) \<Rightarrow> (Some e, c1, w1)
      | (None, c1, w1) \<Rightarrow>
     (case index_kind r (get_logs_Burn r pool from_block to_block)
             (insert_liquidity pool_address ''REMOVE'') c1 w1 of
        (Some e, c2, w2) \<Rightarrow> (Some e, c2, w2)
      | (None, c2, w2) \<Rightarrow>
     (case index_kind r (get_logs_Swap r pool from_block to_block)
             (insert_swap pool_address) c2 w2 of
        (Some e, c3, w3) \<Rightarrow> (Some e, c3, w3)
      | (None, c3, w3) \<Rightarrow>
     (case index_kind r (get_logs_Claim r pool from_block to_block)
             (insert_claim pool_address) c3 w3 of
        (Some e, c4, w4) \<Rightarrow> (Some e, c4, w4)
      | (None, c4, w4) \<Rightarrow> (None, commit c4, w4))))))"

subsection \<open>The scanner\<close>

definition DEFAULT_POOLS :: "string list" where
  "DEFAULT_POOLS =
     [''0x9Da64ed1b87b3d0d3d1E731dd3aAAAc08eb0f5C3'',
      ''0x80c394f8867e06704d39a5910666a3e71ca7f325'',
      ''0xdb6556a14976894a01085c2abf3c85c86d1c15c8'']"

definition step :: int where
  "step = 5000"

definition default_lookback_blocks :: int where
  "default_lookback_blocks = 200000"

text \<open>
  \<^verbatim>\<open>for pool in pools: try: index_pool_events(...) except Exception: print(...)\<close>:
  the exception is dropped and the connection is left as the failed call left it.
\<close>

fun index_pools :: "'w rpc \<Rightarrow> string list \<Rightarrow> int \<Rightarrow> int \<Rightarrow> conn \<Rightarrow> 'w \<Rightarrow> conn \<times> 'w" where
  "index_pools r [] start end c w = (c, w)"
| "index_pools r (pool # pools) start end c w =
     (case index_pool_events r c pool start end w of
        (_, c', w') \<Rightarrow> index_pools r pools start end c' w')"

definition process_window :: "'w rpc \<Rightarrow> string list \<Rightarrow> int \<Rightarrow> int \<Rightarrow> conn \<Rightarrow> 'w \<Rightarrow> conn \<times> 'w" where
  \<comment> \<open>the body of the window loop, for the window starting at \<open>start\<close>\<close>
  "process_window r pools current_block start c w =
     (let end = min (start + step - 1) current_block in
      case index_pools r pools start end c w of
        (c', w') \<Rightarrow> (update_last_block c' end, w'))"

text \<open>\<^verbatim>\<open>for start in range(from_block, current_block + 1, step)\<close>.\<close>

function scan_windows :: "'w rpc \<Rightarrow> string list \<Rightarrow> int \<Rightarrow> int \<Rightarrow> conn \<Rightarrow> 'w \<Rightarrow> conn \<times> 'w" where
  "scan_windows r pools current_block start c w =
     (if start < current_block + 1
      then (case process_window r pools current_block start c w of
              (c', w') \<Rightarrow> scan_windows r pools current_block (start + step) c' w')
      else (c, w))"
  by pat_completeness auto
termination
  by (relation "measure (\<lambda>(r, pools, current_block, start, c, w). nat (current_block + 1 - start))")
     (auto simp: step_def)

declare scan_windows.simps [simp del]

text \<open>
  One run. The result is the exception that ended the run, if any, the database file
  the run leaves behind, and the node's state.
\<close>

definition main :: "'w rpc \<Rightarrow> string list option \<Rightarrow> tables \<Rightarrow> 'w \<Rightarrow> error option \<times> tables \<times> 'w" where
  "main r pools_arg db w =
     (let pools = (case pools_arg of None \<Rightarrow> DEFAULT_POOLS | Some ps \<Rightarrow> ps);
          c = init_db (connect db)
      in case eth_block_number r w of
           (Inl e, w1) \<Rightarrow> (Some e, close c, w1)
         | (Inr current_block, w1) \<Rightarrow>
             (case get_start_block r default_lookback_blocks c w1 of
                (Inl e, c1, w2) \<Rightarrow> (Some e, close c1, w2)
              | (Inr from_block, c1, w2) \<Rightarrow>
                  if from_block \<ge> current_block then (None, close c1, w2)
                  else (case scan_windows r pools current_block from_block c1 w2 of
                          (c2, w3) \<Rightarrow> (None, close c2, w3))))"

text \<open>
  A sequence of runs against the same store, each run with its own \<^verbatim>\<open>pools\<close> argument;
  the result lists the database file after each run.
\<close>

fun run_sequence :: "'w rpc \<Rightarrow> string list option list \<Rightarrow> tables \<Rightarrow> 'w \<Rightarrow> tables list" where
  "run_sequence r [] db w = []"
| "run_sequence r (p # ps) db w =
     (case main r p db w of (_, db', w') \<Rightarrow> db' # run_sequence r ps db' w')"

subsection \<open>A node serving a fixed history\<close>

text \<open>
  The endpoint of the external interface in its simplest form: every call succeeds and
  is answered from one fixed history. \<^verbatim>\<open>get_logs\<close> returns the logs of the contract whose
  block number lies in the closed range asked for, in chain order.
\<close>

record chain =
  ch_head :: int
  ch_timestamp :: "int \<Rightarrow> int"
  ch_Mint :: "string \<Rightarrow> liquidity_args event_log list"
  ch_Burn :: "string \<Rightarrow> liquidity_args event_log list"
  ch_Swap :: "string \<Rightarrow> swap_args event_log list"
  ch_Claim :: "string \<Rightarrow> claim_args event_log list"
  ch_checksum :: "string \<Rightarrow> error + string"

definition in_range :: "int \<Rightarrow> int \<Rightarrow> ('a, 'b) event_log_scheme \<Rightarrow> bool" where
  "in_range from_block to_block ev = (from_block \<le> blockNumber ev \<and> blockNumber ev \<le> to_block)"

definition static_node :: "chain \<Rightarrow> unit rpc" where
  "static_node ch =
     \<lparr>eth_block_number = (\<lambda>w. (Inr (ch_head ch), w)),
      eth_get_block_timestamp = (\<lambda>b w. (Inr (ch_timestamp ch b), w)),
      get_logs_Mint = (\<lambda>p a b w. (Inr (filter (in_range a b) (ch_Mint ch p)), w)),
      get_logs_Burn = (\<lambda>p a b w. (Inr (filter (in_range a b) (ch_Burn ch p)), w)),
      get_logs_Swap = (\<lambda>p a b w. (Inr (filter (in_range a b) (ch_Swap ch p)), w)),
      get_logs_Claim = (\<lambda>p a b w. (Inr (filter (in_range a b) (ch_Claim ch p)), w)),
      to_checksum_address = ch_checksum ch\<rparr>"

definition empty_tables :: tables where
  "empty_tables =
     \<lparr>pool_liquidity_events = [], pool_swaps = [], pool_fee_claims = [], indexer_state = None\<rparr>"

section \<open>The reader\<close>

subsection \<open>Clock and calendar\<close>

text \<open>
  The queries read the system clock. What they compute from it is taken as given:
  \<open>since_hours h\<close> and \<open>since_days d\<close> are the values of
  \<^verbatim>\<open>int((datetime.utcnow() - timedelta(...)).timestamp())\<close> at the call, and
  \<open>hours_ago t\<close> is
  \<^verbatim>\<open>int((datetime.utcnow() - datetime.utcfromtimestamp(t)).total_seconds() // 3600)\<close>,
  which raises when \<open>t\<close> is no valid datetime.
\<close>

record clock =
  since_hours :: "int \<Rightarrow> int"
  since_days :: "int \<Rightarrow> int"
  hours_ago :: "int \<Rightarrow> error + int"

text \<open>
  A naive UTC \<^verbatim>\<open>datetime\<close> built from whole seconds is represented by its POSIX
  seconds. \<^verbatim>\<open>datetime\<close> covers the years 1 to 9999.
\<close>

definition datetime_min :: int where
  "datetime_min = - 62135596800"

definition datetime_max :: int where
  "datetime_max = 253402300799"

definition utcfromtimestamp :: "int \<Rightarrow> error + int" where
  "utcfromtimestamp t = (if datetime_min \<le> t \<and> t \<le> datetime_max then Inr t else Inl OutOfRange)"


subsection \<open>Integer value of a text\<close>

text \<open>
  \<^verbatim>\<open>int(s)\<close> on a text of ASCII characters: surrounding whitespace is dropped, one sign
  may lead, and the digits may be separated by single underscores. (Python also accepts
  digits and spaces outside ASCII, and its default configuration refuses texts of more
  than 4300 digits; the indexer writes neither.)
\<close>

definition is_space :: "char \<Rightarrow> bool" where
  "is_space ch = (let n = (of_char ch :: nat) in (9 \<le> n \<and> n \<le> 13) \<or> n = 32)"

definition is_digit :: "char \<Rightarrow> bool" where
  "is_digit ch = (let n = (of_char ch :: nat) in 48 \<le> n \<and> n \<le> 57)"

definition digit_value :: "char \<Rightarrow> nat" where
  "digit_value ch = of_char ch - 48"

definition strip :: "string \<Rightarrow> string" where
  "strip s = rev (dropWhile is_space (rev (dropWhile is_space s)))"

fun digits_value :: "nat \<Rightarrow> string \<Rightarrow> nat option" where
  "digits_value acc [] = Some acc"
| "digits_value acc [c] = (if is_digit c then Some (10 * acc + digit_value c) else None)"
| "digits_value acc (c # d # cs) =
     (if is_digit c then digits_value (10 * acc + digit_value c) (d # cs)
      else if c = CHR ''_'' \<and> is_digit d then digits_value acc (d # cs)
      else None)"

definition py_int :: "string \<Rightarrow> error + int" where
  "py_int text =
     (let s = strip text;
          negative = (take 1 s = ''-'');
          body = (if take 1 s = ''-'' \<or> take 1 s = ''+'' then drop 1 s else s)
      in case body of
           [] \<Rightarrow> Inl ValueError
         | c # cs \<Rightarrow>
             if is_digit c
             then (case digits_value 0 body of
                     None \<Rightarrow> Inl ValueError
                   | Some n \<Rightarrow> Inr (if negative then - int n else int n))
             else Inl ValueError)"

subsection \<open>Token decimals\<close>

text \<open>
  The ERC-20 \<^verbatim>\<open>decimals()\<close> call returns a \<^verbatim>\<open>uint8\<close>. \<open>decimals_cache\<close> is the
  module-level dictionary \<^verbatim>\<open>_decimals_cache\<close>, threaded through the calls.
\<close>

record 'w token_rpc =
  tk_to_checksum_address :: "string \<Rightarrow> error + string"
  decimals_call :: "string \<Rightarrow> 'w \<Rightarrow> (error + nat) \<times> 'w"

type_synonym decimals_cache = "string \<rightharpoonup> nat"

definition get_token_decimals ::
  "'w token_rpc \<Rightarrow> string \<Rightarrow> decimals_cache \<Rightarrow> 'w \<Rightarrow> (error + nat) \<times> decimals_cache \<times> 'w" where
  "get_token_decimals tr token_address cache w =
     (case tk_to_checksum_address tr token_address of
        Inl e \<Rightarrow> (Inl e, cache, w)
      | Inr addr \<Rightarrow>
          (case cache addr of
             Some d \<Rightarrow> (Inr d, cache, w)
           | None \<Rightarrow>
               (case decimals_call tr addr w of
                  (Inr decimals, w') \<Rightarrow> (Inr decimals, cache(addr \<mapsto> decimals), w')
                | (Inl e, w') \<Rightarrow> (Inr 18, cache(addr \<mapsto> 18), w'))))"

subsection \<open>Recent activity\<close>







subsection \<open>Liquidity time series\<close>

text \<open>
  \<^verbatim>\<open>SELECT ... WHERE pool_address = ? AND block_time >= ? ORDER BY block_time ASC\<close>.
  Rows of equal \<^verbatim>\<open>block_time\<close> are kept in insertion order.
\<close>

definition select_liquidity :: "tables \<Rightarrow> string \<Rightarrow> int \<Rightarrow> liquidity_row list" where
  "select_liquidity db pool_lower since_ts =
     sort_key le_block_time
       (filter (\<lambda>r. le_pool_address r = pool_lower \<and> le_block_time r \<ge> since_ts)
          (pool_liquidity_events db))"

record liquidity_point =
  lp_time :: int
  token0_balance :: int
  token1_balance :: int

text \<open>The \<^verbatim>\<open>for r in rows\<close> loop with its accumulators \<^verbatim>\<open>t0\<close> and \<^verbatim>\<open>t1\<close>.\<close>

fun replay :: "int \<Rightarrow> int \<Rightarrow> liquidity_row list \<Rightarrow> error + liquidity_point list" where
  "replay t0 t1 [] = Inr []"
| "replay t0 t1 (r # rows) =
     (case py_int (le_token0_amount r) of
        Inl e \<Rightarrow> Inl e
      | Inr amt0 \<Rightarrow>
     (case py_int (le_token1_amount r) of
        Inl e \<Rightarrow> Inl e
      | Inr amt1 \<Rightarrow>
          (let t0' = (if le_event_type r = ''ADD'' then t0 + amt0 else t0 - amt0);
               t1' = (if le_event_type r = ''ADD'' then t1 + amt1 else t1 - amt1)
           in case utcfromtimestamp (le_block_time r) of
                Inl e \<Rightarrow> Inl e
              | Inr time \<Rightarrow>
                  (case replay t0' t1' rows of
                     Inl e \<Rightarrow> Inl e
                   | Inr out \<Rightarrow>
                       Inr (\<lparr>lp_time = time, token0_balance = t0', token1_balance = t1'\<rparr> # out)))))"

definition get_liquidity_timeseries :: "clock \<Rightarrow> tables \<Rightarrow> string \<Rightarrow> int \<Rightarrow> error + liquidity_point list" where
  "get_liquidity_timeseries clk db pool_address lookback_days =
     (let since_ts = since_days clk lookback_days;
          pool_lower = lower pool_address;
          rows = select_liquidity db pool_lower since_ts
      in if rows = [] then Inr [] else replay 0 0 rows)"

subsection \<open>Hourly swap volume\<close>








abbreviation (input) pools_of :: "string list option \<Rightarrow> string list" where
  "pools_of pools_arg \<equiv> (case pools_arg of None \<Rightarrow> DEFAULT_POOLS | Some ps \<Rightarrow> ps)"

subsection \<open>A sample history\<close>

definition demo_checksum :: "string \<Rightarrow> error + string" where
  "demo_checksum s = (if take 2 s = ''0x'' then Inr s else Inl InvalidAddress)"

definition demo_chain :: chain where
  "demo_chain =
     \<lparr>ch_head = 12,
      ch_timestamp = (\<lambda>b. 1700000000 + 2 * b),
      ch_Mint = (\<lambda>p. if p = ''0xAb''
         then [\<lparr>blockNumber = 10, transactionHash = ''a1'',
                 args = \<lparr>la_sender = ''0x01'', la_amount0 = 1000, la_amount1 = 2000,
                         la_to = ''0x02'', la_liquidity = 5\<rparr>\<rparr>,
               \<lparr>blockNumber = 12, transactionHash = ''a2'',
                 args = \<lparr>la_sender = ''0x01'', la_amount0 = 7, la_amount1 = 9,
                         la_to = ''0x02'', la_liquidity = 1\<rparr>\<rparr>]
         else []),
      ch_Burn = (\<lambda>p. if p = ''0xAb''
         then [\<lparr>blockNumber = 5, transactionHash = ''b1'',
                 args = \<lparr>la_sender = ''0x03'', la_amount0 = 400, la_amount1 = 500,
                         la_to = ''0x03'', la_liquidity = 2\<rparr>\<rparr>]
         else []),
      ch_Swap = (\<lambda>p. []),
      ch_Claim = (\<lambda>p. []),
      ch_checksum = demo_checksum\<rparr>"

definition demo_db :: tables where
  "demo_db = empty_tables\<lparr>indexer_state := Some 3\<rparr>"

definition demo_db1 :: tables where
  "demo_db1 =
  \<lparr>pool_liquidity_events =
     [\<lparr>le_pool_address = ''0xab'', le_event_type = ''ADD'',
         le_token0_amount = ''1000'', le_token1_amount = ''2000'',
         le_provider_address = ''0x01'', le_tx_hash = ''a1'',
         le_block_number = 10, le_block_time = 1700000020\<rparr>,
      \<lparr>le_pool_address = ''0xab'', le_event_type = ''ADD'',
         le_token0_amount = ''7'', le_token1_amount = ''9'',
         le_provider_address = ''0x01'', le_tx_hash = ''a2'',
         le_block_number = 12, le_block_time = 1700000024\<rparr>,
      \<lparr>le_pool_address = ''0xab'', le_event_type = ''REMOVE'',
         le_token0_amount = ''400'', le_token1_amount = ''500'',
         le_provider_address = ''0x03'', le_tx_hash = ''b1'',
         le_block_number = 5, le_block_time = 1700000010\<rparr>],
     pool_swaps = [], pool_fee_claims = [], indexer_state = Some 12\<rparr>"

subsection \<open>Notions used to state the reader's properties\<close>

text \<open>
  The timestamps \<^verbatim>\<open>datetime\<close> can represent, the texts \<^verbatim>\<open>int\<close> accepts and the
  integers they denote, the signed contribution of a liquidity event to each balance, and
  the hour bucket of a swap.
\<close>

definition valid_datetime :: "int \<Rightarrow> bool" where
  "valid_datetime t = (datetime_min \<le> t \<and> t \<le> datetime_max)"

definition int_text :: "string \<Rightarrow> bool" where
  "int_text s = (case py_int s of Inl e \<Rightarrow> False | Inr n \<Rightarrow> True)"

definition amount :: "string \<Rightarrow> int" where
  \<comment> \<open>the integer \<^verbatim>\<open>int(s)\<close> returns for a text it accepts\<close>
  "amount s = projr (py_int s)"

definition signed_amount0 :: "liquidity_row \<Rightarrow> int" where
  "signed_amount0 r =
     (if le_event_type r = ''ADD'' then amount (le_token0_amount r) else - amount (le_token0_amount r))"

definition signed_amount1 :: "liquidity_row \<Rightarrow> int" where
  "signed_amount1 r =
     (if le_event_type r = ''ADD'' then amount (le_token1_amount r) else - amount (le_token1_amount r))"


subsection \<open>Sample stores, clock and token node\<close>

text \<open>
  A clock whose lookback windows all start at the epoch; a store holding the liquidity
  scenario (with an unrelated pool in between and the rows stored out of time order), one
  holding a lone REMOVE, and one holding three swaps over two clock hours.
\<close>

definition epoch_clock :: clock where
  "epoch_clock = \<lparr>since_hours = (\<lambda>h. 0), since_days = (\<lambda>d. 0), hours_ago = (\<lambda>t. Inr 1)\<rparr>"

definition liq :: "string \<Rightarrow> string \<Rightarrow> int \<Rightarrow> int \<Rightarrow> int \<Rightarrow> liquidity_row" where
  "liq pool kind t a0 a1 =
     \<lparr>le_pool_address = pool, le_event_type = kind, le_token0_amount = str a0,
      le_token1_amount = str a1, le_provider_address = ''0x01'', le_tx_hash = ''aa'', le_block_number = t div 2,
      le_block_time = t\<rparr>"

definition replay_db :: tables where
  "replay_db = empty_tables\<lparr>pool_liquidity_events :=
      [liq ''0xab'' ''REMOVE'' 200 400 500, liq ''0xcd'' ''ADD'' 150 1 1, liq ''0xab'' ''ADD'' 100 1000 2000]\<rparr>"

definition remove_only_db :: tables where
  "remove_only_db = empty_tables\<lparr>pool_liquidity_events := [liq ''0xab'' ''REMOVE'' 200 400 500]\<rparr>"



text \<open>
  A token node whose first \<^verbatim>\<open>decimals()\<close> call fails and whose later calls answer 6;
  its state counts the calls made.
\<close>

definition flaky_token_rpc :: "nat token_rpc" where
  "flaky_token_rpc =
     \<lparr>tk_to_checksum_address = demo_checksum,
      decimals_call = (\<lambda>addr n. (if n = 0 then Inl RPCError else Inr 6, Suc n))\<rparr>"


subsection \<open>Notions used to state the order of insertion\<close>










subsection \<open>A failing node\<close>

definition grows :: "tables \<Rightarrow> tables \<Rightarrow> bool" where
  "grows t t' =
     ((\<exists>ls. pool_liquidity_events t' = pool_liquidity_events t @ ls)
    \<and> (\<exists>ss. pool_swaps t' = pool_swaps t @ ss)
    \<and> (\<exists>fs. pool_fee_claims t' = pool_fee_claims t @ fs))"

definition stalling_node :: "unit rpc" where
  "stalling_node =
     (static_node demo_chain)\<lparr>eth_get_block_timestamp :=
        (\<lambda>b w. (if b = 12 then Inl RPCError else Inr (ch_timestamp demo_chain b), w))\<rparr>"

definition partial_db :: tables where
  "partial_db =
     \<lparr>pool_liquidity_events =
        [\<lparr>le_pool_address = ''0xab'', le_event_type = ''ADD'',
          le_token0_amount = ''1000'', le_token1_amount = ''2000'',
          le_provider_address = ''0x01'', le_tx_hash = ''a1'',
          le_block_number = 10, le_block_time = 1700000020\<rparr>],
      pool_swaps = [], pool_fee_claims = [], indexer_state = Some 12\<rparr>"

subsection \<open>Consecutive runs against a fixed history\<close>

definition run_at :: "chain \<Rightarrow> int \<Rightarrow> string list \<Rightarrow> tables \<Rightarrow> tables" where
  "run_at ch head pools db = fst (snd (main (static_node (ch\<lparr>ch_head := head\<rparr>)) (Some pools) db ()))"

definition demo_db2 :: tables where
  "demo_db2 = demo_db1\<lparr>pool_liquidity_events := pool_liquidity_events demo_db1 @
      [\<lparr>le_pool_address = ''0xab'', le_event_type = ''ADD'',
         le_token0_amount = ''7'', le_token1_amount = ''9'',
         le_provider_address = ''0x01'', le_tx_hash = ''a2'',
         le_block_number = 12, le_block_time = 1700000024\<rparr>],
     indexer_state := Some 14\<rparr>"

text \<open>
  A run appends a given row of table \<open>T\<close> whenever it indexes pool \<open>q0\<close> over a range
  that holds block \<open>x0\<close>, and no call shortens the table.
\<close>

definition records_event :: "'w rpc \<Rightarrow> (tables \<Rightarrow> 'a list) \<Rightarrow> string \<Rightarrow> int \<Rightarrow> 'a \<Rightarrow> bool" where
  "records_event r T q0 x0 row =
     ((\<forall>c q s e w x c' w'. index_pool_events r c q s e w = (x, c', w')
          \<longrightarrow> (\<exists>ls. T (working c') = T (working c) @ ls))
    \<and> (\<forall>c s e w x c' w'. index_pool_events r c q0 s e w = (x, c', w') \<longrightarrow> s \<le> x0 \<longrightarrow> x0 \<le> e
          \<longrightarrow> (\<exists>ls. T (working c') = T (working c) @ ls \<and> row \<in> set ls))
    \<and> (\<forall>t b. T (t\<lparr>indexer_state := b\<rparr>) = T t))"

section \<open>Properties of the scanner\<close>

subsection \<open>Checkpoint\<close>

lemma process_window_checkpoint:
  "process_window r pools cur start c w = (c', w') \<Longrightarrow>
     indexer_state (committed c') = Some (min (start + step - 1) cur) \<and> working c' = committed c'"
  by (auto simp: process_window_def update_last_block_def commit_def set_last_block_def Let_def
      split: prod.splits)

lemma scan_windows_checkpoint:
  "start \<le> cur \<Longrightarrow> scan_windows r pools cur start c w = (c', w') \<Longrightarrow>
     indexer_state (committed c') = Some cur \<and> working c' = committed c'"
proof (induction r pools cur start c w arbitrary: c' w' rule: scan_windows.induct)
  case (1 r pools cur start c w)
  obtain c1 w1 where pw: "process_window r pools cur start c w = (c1, w1)"
    by (cases "process_window r pools cur start c w")
  from pw have cp: "indexer_state (committed c1) = Some (min (start + step - 1) cur)"
     "working c1 = committed c1"
    using process_window_checkpoint [OF pw] by simp_all
  from "1.prems" pw have sc: "scan_windows r pools cur (start + step) c1 w1 = (c', w')"
    by (simp add: scan_windows.simps [of r pools cur start])
  show ?case
  proof (cases "start + step \<le> cur")
    case True
    with "1.IH" [OF _ pw [symmetric] _ sc] "1.prems" show ?thesis by simp
  next
    case False
    then have "scan_windows r pools cur (start + step) c1 w1 = (c1, w1)"
      by (simp add: scan_windows.simps [of r pools cur "start + step"])
    with sc cp False "1.prems" show ?thesis by (auto simp: step_def)
  qed
qed

lemma init_db_connect: "init_db (connect db) = connect db"
  by (simp add: init_db_def connect_def commit_def)

lemma get_start_block_Some:
  "indexer_state (working c) = Some b \<Longrightarrow>
   get_start_block r lb c w =
     (case eth_block_number r w of (Inl e, w') \<Rightarrow> (Inl e, c, w') | (Inr h, w') \<Rightarrow> (Inr b, c, w'))"
  by (simp add: get_start_block_def split: prod.splits sum.splits)

lemma get_start_block_None:
  "indexer_state (working c) = None \<Longrightarrow>
   get_start_block r lb c w =
     (case eth_block_number r w of
        (Inl e, w') \<Rightarrow> (Inl e, c, w')
      | (Inr h, w') \<Rightarrow> (Inr (max 0 (h - lb)), commit (set_last_block (max 0 (h - lb)) c), w'))"
  by (simp add: get_start_block_def Let_def split: prod.splits sum.splits)

lemma main_stored:
  assumes "indexer_state db = Some b"
  shows "main r pools db w =
    (case eth_block_number r w of
       (Inl e, w1) \<Rightarrow> (Some e, db, w1)
     | (Inr cur, w1) \<Rightarrow>
        (case eth_block_number r w1 of
           (Inl e, w2) \<Rightarrow> (Some e, db, w2)
         | (Inr h, w2) \<Rightarrow>
             if cur \<le> b then (None, db, w2)
             else (case scan_windows r (pools_of pools) cur b (connect db) w2 of
                     (c2, w3) \<Rightarrow> (None, committed c2, w3))))"
proof -
  have ws: "indexer_state (working (connect db)) = Some b"
    using assms by (simp add: connect_def)
  have cd: "committed (connect db) = db" by (simp add: connect_def)
  show ?thesis
    unfolding main_def Let_def init_db_connect get_start_block_Some [OF ws] close_def
    by (simp add: cd split: prod.splits sum.splits)
qed

lemma main_fresh:
  assumes "indexer_state db = None"
  shows "main r pools db w =
    (case eth_block_number r w of
       (Inl e, w1) \<Rightarrow> (Some e, db, w1)
     | (Inr cur, w1) \<Rightarrow>
        (case eth_block_number r w1 of
           (Inl e, w2) \<Rightarrow> (Some e, db, w2)
         | (Inr h, w2) \<Rightarrow>
             (let seed = max 0 (h - default_lookback_blocks);
                  db1 = db\<lparr>indexer_state := Some seed\<rparr>
              in if cur \<le> seed then (None, db1, w2)
                 else (case scan_windows r (pools_of pools) cur seed (connect db1) w2 of
                         (c2, w3) \<Rightarrow> (None, committed c2, w3)))))"
proof -
  have ws: "indexer_state (working (connect db)) = None"
    using assms by (simp add: connect_def)
  have cd: "committed (connect db) = db" by (simp add: connect_def)
  have seed: "commit (set_last_block s (connect db)) = connect (db\<lparr>indexer_state := Some s\<rparr>)" for s
    by (simp add: commit_def set_last_block_def connect_def)
  show ?thesis
    unfolding main_def Let_def init_db_connect get_start_block_None [OF ws] close_def seed
    by (simp add: cd connect_def split: prod.splits sum.splits)
qed

lemma main_noop:
  assumes "indexer_state db = Some last_block"
    and "eth_block_number r w = (Inr head, w1)"
    and "head \<le> last_block"
  shows "fst (snd (main r pools db w)) = db"
  unfolding main_stored [OF assms(1)] using assms(2,3)
  by (simp split: prod.splits sum.splits)

lemma main_checkpoint_after:
  assumes m: "main r pools db w = (None, db', w')"
    and h: "eth_block_number r w = (Inr head, w1)"
  shows "\<exists>b. indexer_state db' = Some b \<and> head \<le> b"
proof -
  obtain x w2 where h2: "eth_block_number r w1 = (x, w2)"
    by (cases "eth_block_number r w1")
  show ?thesis
  proof (cases "indexer_state db")
    case None
    show ?thesis
    proof (cases x)
      case (Inl e)
      with m h h2 show ?thesis by (simp add: main_fresh [OF None])
    next
      case (Inr hd2)
      define seed where "seed = max 0 (hd2 - default_lookback_blocks)"
      show ?thesis
      proof (cases "head \<le> seed")
        case True
        with m h h2 Inr have "db' = db\<lparr>indexer_state := Some seed\<rparr>"
          by (simp add: main_fresh [OF None] seed_def Let_def)
        with True show ?thesis by simp
      next
        case False
        obtain c2 w3 where sc: "scan_windows r (pools_of pools) head seed
             (connect (db\<lparr>indexer_state := Some seed\<rparr>)) w2 = (c2, w3)"
          by (cases "scan_windows r (pools_of pools) head seed
             (connect (db\<lparr>indexer_state := Some seed\<rparr>)) w2")
        with m h h2 Inr False have "db' = committed c2"
          by (simp add: main_fresh [OF None] seed_def Let_def)
        moreover have "indexer_state (committed c2) = Some head"
          using scan_windows_checkpoint [OF _ sc] False by simp
        ultimately show ?thesis by simp
      qed
    qed
  next
    case (Some b)
    show ?thesis
    proof (cases x)
      case (Inl e)
      with m h h2 show ?thesis by (simp add: main_stored [OF Some])
    next
      case (Inr hd2)
      show ?thesis
      proof (cases "head \<le> b")
        case True
        with m h h2 Inr have "db' = db"
          by (simp add: main_stored [OF Some])
        with True Some show ?thesis by simp
      next
        case False
        obtain c2 w3 where sc: "scan_windows r (pools_of pools) head b (connect db) w2 = (c2, w3)"
          by (cases "scan_windows r (pools_of pools) head b (connect db) w2")
        with m h h2 Inr False have "db' = committed c2"
          by (simp add: main_stored [OF Some])
        moreover have "indexer_state (committed c2) = Some head"
          using scan_windows_checkpoint [OF _ sc] False by simp
        ultimately show ?thesis by simp
      qed
    qed
  qed
qed

lemma main_monotone:
  "indexer_state db \<le> indexer_state (fst (snd (main r pools db w)))"
proof (cases "indexer_state db")
  case None
  then show ?thesis by simp
next
  case (Some b)
  obtain x w1 where h: "eth_block_number r w = (x, w1)"
    by (cases "eth_block_number r w")
  obtain y w2 where h2: "eth_block_number r w1 = (y, w2)"
    by (cases "eth_block_number r w1")
  show ?thesis
  proof (cases x)
    case (Inl e)
    with h show ?thesis by (simp add: main_stored [OF Some])
  next
    case cur: (Inr cur)
    show ?thesis
    proof (cases y)
      case (Inl e)
      with h h2 cur show ?thesis by (simp add: main_stored [OF Some])
    next
      case (Inr hd2)
      show ?thesis
      proof (cases "cur \<le> b")
        case True
        with h h2 cur Inr show ?thesis by (simp add: main_stored [OF Some])
      next
        case False
        obtain c2 w3 where sc: "scan_windows r (pools_of pools) cur b (connect db) w2 = (c2, w3)"
          by (cases "scan_windows r (pools_of pools) cur b (connect db) w2")
        have "indexer_state (committed c2) = Some cur"
          using scan_windows_checkpoint [OF _ sc] False by simp
        with h h2 cur Inr False sc Some show ?thesis
          by (simp add: main_stored [OF Some])
      qed
    qed
  qed
qed

lemma run_sequence_sorted:
  "sorted (map indexer_state (db # run_sequence r runs db w))"
proof (induction runs arbitrary: db w)
  case Nil
  then show ?case by simp
next
  case (Cons p ps)
  obtain e db' w' where m: "main r p db w = (e, db', w')"
    by (cases "main r p db w") auto
  have le: "indexer_state db \<le> indexer_state db'"
    using main_monotone [of db r p w] m by simp
  have s: "sorted (map indexer_state (db' # run_sequence r ps db' w'))"
    by (rule Cons.IH)
  then have "\<forall>x \<in> set (map indexer_state (run_sequence r ps db' w')). indexer_state db' \<le> x"
    by simp
  with le have "\<forall>x \<in> set (map indexer_state (run_sequence r ps db' w')). indexer_state db \<le> x"
    by (meson order_trans)
  with s m le show ?case by simp
qed



lemma lower_0xAb: "lower ''0xAb'' = ''0xab''"
  by code_simp

lemma str_demo:
  "str 1000 = ''1000''" "str 2000 = ''2000''" "str 7 = ''7''" "str 9 = ''9''"
  "str 400 = ''400''" "str 500 = ''500''"
  by code_simp+

lemmas demo_simps =
  main_def init_db_def connect_def commit_def demo_db_def empty_tables_def close_def
  static_node_def demo_chain_def get_start_block_def default_lookback_blocks_def
  scan_windows.simps process_window_def step_def index_pool_events_def index_kind_def
  demo_checksum_def in_range_def get_block_timestamp_def insert_liquidity_def
  insert_swap_def insert_claim_def liquidity_values_def swap_values_def claim_values_def
  update_last_block_def set_last_block_def lower_0xAb str_demo

lemma demo_run: "main (static_node demo_chain) (Some [''0xAb'']) demo_db () = (None, demo_db1, ())"
  by (simp add: demo_simps demo_db1_def)

text \<open>
  Claim C1. Whatever the node answers while the pools of a window are indexed, the window
  ends with the checkpoint committed at the window's end block. A window processed
  under the loop's invariant (the stored checkpoint is at most the window's start) does
  not lower the checkpoint, a run never lowers it, and over any sequence of runs the
  stored \<open>last_block\<close> is non-decreasing (an absent checkpoint counts as lowest).
\<close>

theorem checkpoint_persisted_and_monotonic:
  "indexer_state (committed (fst (process_window r pools cur start c w)))
      = Some (min (start + step - 1) cur)
   \<and> (indexer_state (committed c) = Some b \<and> b \<le> start \<and> start \<le> cur \<longrightarrow>
        Some b \<le> indexer_state (committed (fst (process_window r pools cur start c w))))
   \<and> indexer_state db \<le> indexer_state (fst (snd (main r pools_arg db w0)))
   \<and> sorted (map indexer_state (db # run_sequence r runs db w0))"
proof -
  obtain c' w' where pw: "process_window r pools cur start c w = (c', w')"
    by (cases "process_window r pools cur start c w")
  have cp: "indexer_state (committed c') = Some (min (start + step - 1) cur)"
    using process_window_checkpoint [OF pw] by simp
  have "b \<le> start \<Longrightarrow> start \<le> cur \<Longrightarrow> b \<le> min (start + step - 1) cur"
    by (simp add: step_def)
  with pw cp main_monotone [of db r pools_arg w0] run_sequence_sorted [of db r runs w0]
  show ?thesis by simp
qed

theorem checkpoint_persisted_and_monotonic_witness:
  "indexer_state (committed (connect demo_db)) = Some 3 \<and> (3::int) \<le> 3 \<and> (3::int) \<le> 12
   \<and> Some 3 \<le> indexer_state (committed (fst (process_window (static_node demo_chain) [''0xAb''] 12 3
                  (connect demo_db) ())))
   \<and> indexer_state (committed (fst (process_window (static_node demo_chain) [''0xAb''] 12 3
                  (connect demo_db) ()))) = Some 12"
  using checkpoint_persisted_and_monotonic [where r = "static_node demo_chain"
      and pools = "[''0xAb'']" and cur = 12 and start = 3 and c = "connect demo_db" and w = "()"
      and b = 3 and db = demo_db and pools_arg = None and runs = "[]" and ?w0.0 = "()"]
  by (simp add: connect_def demo_db_def step_def)

text \<open>
  Claim C2. A run that finds the chain head at or below the stored checkpoint leaves the
  whole database, event tables and checkpoint, as it was. In particular a run made
  after a completed run, with the head no further than the first run saw it, changes
  nothing.
\<close>

theorem rerun_without_new_blocks_is_noop:
  "(indexer_state db = Some last_block \<and> eth_block_number r w = (Inr head, w1) \<and> head \<le> last_block
      \<longrightarrow> fst (snd (main r pools db w)) = db)
   \<and> (main r1 pools1 db1 v = (None, db', w') \<and> eth_block_number r1 v = (Inr head1, v1)
       \<and> eth_block_number r2 w' = (Inr head2, w2) \<and> head2 \<le> head1
      \<longrightarrow> fst (snd (main r2 pools2 db' w')) = db')"
proof (intro conjI impI)
  assume "indexer_state db = Some last_block \<and> eth_block_number r w = (Inr head, w1) \<and> head \<le> last_block"
  then have "indexer_state db = Some last_block" "eth_block_number r w = (Inr head, w1)"
    "head \<le> last_block" by simp_all
  then show "fst (snd (main r pools db w)) = db"
    by (rule main_noop)
next
  assume a: "main r1 pools1 db1 v = (None, db', w') \<and> eth_block_number r1 v = (Inr head1, v1)
       \<and> eth_block_number r2 w' = (Inr head2, w2) \<and> head2 \<le> head1"
  then have "main r1 pools1 db1 v = (None, db', w')" "eth_block_number r1 v = (Inr head1, v1)"
    by simp_all
  then have "\<exists>b. indexer_state db' = Some b \<and> head1 \<le> b"
    by (rule main_checkpoint_after)
  then obtain b where b: "indexer_state db' = Some b" "head1 \<le> b" by blast
  from a have h2: "eth_block_number r2 w' = (Inr head2, w2)" "head2 \<le> head1" by simp_all
  from b(2) h2(2) have "head2 \<le> b" by simp
  with b(1) h2(1) show "fst (snd (main r2 pools2 db' w')) = db'"
    by (rule main_noop)
qed

theorem rerun_without_new_blocks_is_noop_witness:
  "indexer_state demo_db1 = Some 12
   \<and> eth_block_number (static_node demo_chain) () = (Inr 12, ()) \<and> (12::int) \<le> 12
   \<and> main (static_node demo_chain) (Some [''0xAb'']) demo_db () = (None, demo_db1, ())
   \<and> fst (snd (main (static_node demo_chain) (Some [''0xAb'']) demo_db1 ())) = demo_db1"
  using rerun_without_new_blocks_is_noop [where db = demo_db1 and last_block = 12
      and r = "static_node demo_chain" and w = "()" and head = 12 and ?w1.0 = "()"
      and pools = "Some [''0xAb'']" and ?r1.0 = "static_node demo_chain"
      and ?pools1.0 = "Some [''0xAb'']" and ?db1.0 = demo_db and v = "()" and ?head1.0 = 12
      and ?v1.0 = "()" and db' = demo_db1 and w' = "()"
      and ?r2.0 = "static_node demo_chain" and ?head2.0 = 12 and ?w2.0 = "()"
      and ?pools2.0 = "Some [''0xAb'']"]
    demo_run
  by (simp add: demo_db1_def static_node_def demo_chain_def)

text \<open>
  Claim C6. With no checkpoint row, \<open>get_start_block\<close> returns
  \<open>max 0 (head - 200000)\<close> for the head it reads and commits it at once: the run then
  either stops or starts its window loop on a connection whose committed state already
  holds the seed. The seed is 0 exactly when \<open>head \<le> 200000\<close>.
\<close>

theorem checkpoint_bootstrap:
  assumes "indexer_state db = None"
    and "eth_block_number r w0 = (Inr current_block, w)"
    and "eth_block_number r w = (Inr head, w')"
  shows "get_start_block r default_lookback_blocks (init_db (connect db)) w
           = (Inr (max 0 (head - 200000)),
              connect (db\<lparr>indexer_state := Some (max 0 (head - 200000))\<rparr>), w')
       \<and> main r pools db w0
           = (if current_block \<le> max 0 (head - 200000)
              then (None, db\<lparr>indexer_state := Some (max 0 (head - 200000))\<rparr>, w')
              else (case scan_windows r (pools_of pools) current_block (max 0 (head - 200000))
                           (connect (db\<lparr>indexer_state := Some (max 0 (head - 200000))\<rparr>)) w' of
                      (c2, w3) \<Rightarrow> (None, close c2, w3)))
       \<and> (max 0 (head - 200000) = 0 \<longleftrightarrow> head \<le> 200000)"
proof -
  have ws: "indexer_state (working (connect db)) = None"
    using assms(1) by (simp add: connect_def)
  have "get_start_block r default_lookback_blocks (init_db (connect db)) w
           = (Inr (max 0 (head - 200000)),
              connect (db\<lparr>indexer_state := Some (max 0 (head - 200000))\<rparr>), w')"
    unfolding init_db_connect get_start_block_None [OF ws] using assms(3)
    by (simp add: default_lookback_blocks_def commit_def set_last_block_def connect_def)
  moreover have "main r pools db w0
           = (if current_block \<le> max 0 (head - 200000)
              then (None, db\<lparr>indexer_state := Some (max 0 (head - 200000))\<rparr>, w')
              else (case scan_windows r (pools_of pools) current_block (max 0 (head - 200000))
                           (connect (db\<lparr>indexer_state := Some (max 0 (head - 200000))\<rparr>)) w' of
                      (c2, w3) \<Rightarrow> (None, close c2, w3)))"
    using assms(2,3)
    by (simp add: main_fresh [OF assms(1)] default_lookback_blocks_def Let_def close_def)
  moreover have "(max 0 (head - 200000) = 0) = (head \<le> 200000)"
    by auto
  ultimately show ?thesis by blast
qed

theorem checkpoint_bootstrap_witness:
  "indexer_state empty_tables = None
   \<and> eth_block_number (static_node (demo_chain\<lparr>ch_head := 200012\<rparr>)) () = (Inr 200012, ())
   \<and> get_start_block (static_node (demo_chain\<lparr>ch_head := 200012\<rparr>)) default_lookback_blocks
        (init_db (connect empty_tables)) ()
       = (Inr 12, connect (empty_tables\<lparr>indexer_state := Some 12\<rparr>), ())"
  using checkpoint_bootstrap [where db = empty_tables
      and r = "static_node (demo_chain\<lparr>ch_head := 200012\<rparr>)" and ?w0.0 = "()"
      and current_block = 200012 and w = "()" and head = 200012 and w' = "()" and pools = None]
  by (simp add: empty_tables_def static_node_def)

subsection \<open>Order of insertion\<close>












lemma index_pool_events_rel:
  assumes res: "index_pool_events r c q s e w = (x, c', w')"
    and refl: "R0 c"
    and M: "\<And>p c0 c1 x1 w0 w1. to_checksum_address r q = Inr p \<Longrightarrow> R0 c0 \<Longrightarrow>
        index_kind r (get_logs_Mint r p s e) (insert_liquidity q ''ADD'') c0 w0 = (x1, c1, w1) \<Longrightarrow> R1 c1"
    and B: "\<And>p c0 c1 x1 w0 w1. to_checksum_address r q = Inr p \<Longrightarrow> R1 c0 \<Longrightarrow>
        index_kind r (get_logs_Burn r p s e) (insert_liquidity q ''REMOVE'') c0 w0 = (x1, c1, w1) \<Longrightarrow> R2 c1"
    and S: "\<And>p c0 c1 x1 w0 w1. to_checksum_address r q = Inr p \<Longrightarrow> R2 c0 \<Longrightarrow>
        index_kind r (get_logs_Swap r p s e) (insert_swap q) c0 w0 = (x1, c1, w1) \<Longrightarrow> R3 c1"
    and C: "\<And>p c0 c1 x1 w0 w1. to_checksum_address r q = Inr p \<Longrightarrow> R3 c0 \<Longrightarrow>
        index_kind r (get_logs_Claim r p s e) (insert_claim q) c0 w0 = (x1, c1, w1) \<Longrightarrow> R4 c1"
  shows "(x = None \<longrightarrow> (\<exists>c4. R4 c4 \<and> c' = commit c4))
       \<and> (x \<noteq> None \<longrightarrow> R0 c' \<or> R1 c' \<or> R2 c' \<or> R3 c' \<or> R4 c')"
proof (cases "to_checksum_address r q")
  case (Inl err)
  with res refl show ?thesis by (auto simp: index_pool_events_def)
next
  case (Inr p)
  obtain x1 c1 w1 where s1: "index_kind r (get_logs_Mint r p s e) (insert_liquidity q ''ADD'') c w = (x1, c1, w1)"
    by (metis prod_cases3)
  have r1: "R1 c1" using M [OF Inr refl s1] .
  show ?thesis
  proof (cases x1)
    case (Some err)
    with res Inr s1 r1 show ?thesis by (auto simp: index_pool_events_def)
  next
    case None
    note n1 = None
    obtain x2 c2 w2 where s2: "index_kind r (get_logs_Burn r p s e) (insert_liquidity q ''REMOVE'') c1 w1 = (x2, c2, w2)"
      by (metis prod_cases3)
    have r2: "R2 c2" using B [OF Inr r1 s2] .
    show ?thesis
    proof (cases x2)
      case (Some err)
      with res Inr s1 n1 s2 r2 show ?thesis by (auto simp: index_pool_events_def)
    next
      case None
      note n2 = None
      obtain x3 c3 w3 where s3: "index_kind r (get_logs_Swap r p s e) (insert_swap q) c2 w2 = (x3, c3, w3)"
        by (metis prod_cases3)
      have r3: "R3 c3" using S [OF Inr r2 s3] .
      show ?thesis
      proof (cases x3)
        case (Some err)
        with res Inr s1 n1 s2 n2 s3 r3 show ?thesis by (auto simp: index_pool_events_def)
      next
        case None
        note n3 = None
        obtain x4 c4 w4 where s4: "index_kind r (get_logs_Claim r p s e) (insert_claim q) c3 w3 = (x4, c4, w4)"
          by (metis prod_cases3)
        have r4: "R4 c4" using C [OF Inr r3 s4] .
        show ?thesis
        proof (cases x4)
          case (Some err)
          with res Inr s1 n1 s2 n2 s3 n3 s4 r4 show ?thesis by (auto simp: index_pool_events_def)
        next
          case None
          with res Inr s1 n1 s2 n2 s3 n3 s4 r4 show ?thesis
            by (auto simp: index_pool_events_def)
        qed
      qed
    qed
  qed
qed

lemma working_commit: "working (commit c) = working c"
  by (simp add: commit_def)



























subsection \<open>Failure of one pool in one window\<close>

lemma grows_refl: "grows t t"
  by (simp add: grows_def)

lemma grows_trans: "grows t t1 \<Longrightarrow> grows t1 t2 \<Longrightarrow> grows t t2"
  by (auto simp: grows_def)

lemma for_each_event_inv:
  assumes "\<And>ev ts c0. R c0 \<Longrightarrow> R (ins ev ts c0)"
  shows "R c \<Longrightarrow> for_each_event r ins evs c w = (x, c', w') \<Longrightarrow> R c'"
proof (induction evs arbitrary: c w)
  case Nil
  then show ?case by simp
next
  case (Cons ev evs)
  show ?case
  proof (cases "get_block_timestamp r (blockNumber ev) w")
    case (Pair res w1)
    show ?thesis
    proof (cases res)
      case (Inl e)
      with Pair Cons.prems show ?thesis by simp
    next
      case (Inr ts)
      with Pair Cons.prems have "for_each_event r ins evs (ins ev ts c) w1 = (x, c', w')"
        by simp
      moreover have "R (ins ev ts c)" using assms Cons.prems(1) by simp
      ultimately show ?thesis using Cons.IH by blast
    qed
  qed
qed

lemma index_kind_inv:
  assumes "\<And>ev ts c0. R c0 \<Longrightarrow> R (ins ev ts c0)"
    and "R c"
    and "index_kind r fetch ins c w = (x, c', w')"
  shows "R c'"
proof (cases "fetch w")
  case (Pair a w1)
  show ?thesis
  proof (cases a)
    case (Inl err)
    with Pair assms(2,3) show ?thesis by (simp add: index_kind_def)
  next
    case (Inr evs)
    with Pair assms(3) have fe: "for_each_event r ins evs c w1 = (x, c', w')"
      by (simp add: index_kind_def)
    show ?thesis
      by (rule for_each_event_inv [where R = R and ins = ins, OF assms(1) assms(2) fe])
  qed
qed

lemma index_pool_events_inv:
  assumes res: "index_pool_events r c q s e w = (x, c', w')"
    and R: "R c"
    and iM: "\<And>ev ts c0. R c0 \<Longrightarrow> R (insert_liquidity q ''ADD'' ev ts c0)"
    and iB: "\<And>ev ts c0. R c0 \<Longrightarrow> R (insert_liquidity q ''REMOVE'' ev ts c0)"
    and iS: "\<And>ev ts c0. R c0 \<Longrightarrow> R (insert_swap q ev ts c0)"
    and iC: "\<And>ev ts c0. R c0 \<Longrightarrow> R (insert_claim q ev ts c0)"
  shows "(x = None \<longrightarrow> (\<exists>c4. R c4 \<and> c' = commit c4)) \<and> (x \<noteq> None \<longrightarrow> R c')"
proof -
  have "(x = None \<longrightarrow> (\<exists>c4. R c4 \<and> c' = commit c4))
       \<and> (x \<noteq> None \<longrightarrow> R c' \<or> R c' \<or> R c' \<or> R c' \<or> R c')"
  proof (rule index_pool_events_rel [OF res, where ?R0.0 = R and ?R1.0 = R
          and ?R2.0 = R and ?R3.0 = R and ?R4.0 = R])
    show "R c" by (rule R)
  next
    fix p c0 c1 x1 w0 w1
    assume a1: "R c0"
      and a2: "index_kind r (get_logs_Mint r p s e) (insert_liquidity q ''ADD'') c0 w0 = (x1, c1, w1)"
    show "R c1"
      by (rule index_kind_inv [where R = R and ins = "insert_liquidity q ''ADD''", OF iM a1 a2])
  next
    fix p c0 c1 x1 w0 w1
    assume a1: "R c0"
      and a2: "index_kind r (get_logs_Burn r p s e) (insert_liquidity q ''REMOVE'') c0 w0 = (x1, c1, w1)"
    show "R c1"
      by (rule index_kind_inv [where R = R and ins = "insert_liquidity q ''REMOVE''", OF iB a1 a2])
  next
    fix p c0 c1 x1 w0 w1
    assume a1: "R c0"
      and a2: "index_kind r (get_logs_Swap r p s e) (insert_swap q) c0 w0 = (x1, c1, w1)"
    show "R c1"
      by (rule index_kind_inv [where R = R and ins = "insert_swap q", OF iS a1 a2])
  next
    fix p c0 c1 x1 w0 w1
    assume a1: "R c0"
      and a2: "index_kind r (get_logs_Claim r p s e) (insert_claim q) c0 w0 = (x1, c1, w1)"
    show "R c1"
      by (rule index_kind_inv [where R = R and ins = "insert_claim q", OF iC a1 a2])
  qed
  then show ?thesis by blast
qed

lemma index_pool_events_grows:
  assumes res: "index_pool_events r c q s e w = (x, c', w')"
  shows "grows (working c) (working c')
       \<and> indexer_state (working c') = indexer_state (working c)
       \<and> (x \<noteq> None \<longrightarrow> committed c' = committed c)
       \<and> (x = None \<longrightarrow> committed c' = working c')"
proof -
  let ?R = "\<lambda>c0. grows (working c) (working c0)
       \<and> indexer_state (working c0) = indexer_state (working c) \<and> committed c0 = committed c"
  have "(x = None \<longrightarrow> (\<exists>c4. ?R c4 \<and> c' = commit c4)) \<and> (x \<noteq> None \<longrightarrow> ?R c')"
    by (rule index_pool_events_inv [OF res, where R = ?R])
       (auto simp: grows_def insert_liquidity_def insert_swap_def insert_claim_def)
  then show ?thesis
    by (cases x) (auto simp: commit_def)
qed

lemma stalling_call:
  "index_pool_events stalling_node (connect demo_db) ''0xAb'' 3 12 ()
     = (Some RPCError,
        \<lparr>committed = demo_db, working = partial_db\<lparr>indexer_state := Some 3\<rparr>\<rparr>, ())"
  by (simp add: stalling_node_def demo_simps partial_db_def)

lemma stalling_run:
  "main stalling_node (Some [''0xAb'']) demo_db () = (None, partial_db, ())"
  by (simp add: stalling_node_def demo_simps partial_db_def)

text \<open>
  Claim C9. When \<open>index_pool_events\<close> raises, nothing is rolled back: the connection keeps
  the rows inserted before the exception in its open transaction (the tables have only
  grown, the committed state is the old one), and the \<open>update_last_block\<close> that follows
  the window commits them together with the checkpoint. On the sample history, with a
  node whose timestamp lookup fails for block 12, the run leaves the ADD row of block 10
  and the checkpoint 12 in the database, where a run without failure leaves three rows.
\<close>

theorem failed_pool_rows_persist:
  "(index_pool_events r c pool from_block to_block w = (Some e, c', w') \<longrightarrow>
       committed c' = committed c
     \<and> grows (working c) (working c')
     \<and> committed (update_last_block c' b) = (working c')\<lparr>indexer_state := Some b\<rparr>)
   \<and> main stalling_node (Some [''0xAb'']) demo_db () = (None, partial_db, ())
   \<and> main (static_node demo_chain) (Some [''0xAb'']) demo_db () = (None, demo_db1, ())"
  using index_pool_events_grows [of r c pool from_block to_block w "Some e" c' w'] stalling_run demo_run
  by (auto simp: update_last_block_def commit_def set_last_block_def)

theorem failed_pool_rows_persist_witness:
  "index_pool_events stalling_node (connect demo_db) ''0xAb'' 3 12 ()
     = (Some RPCError, \<lparr>committed = demo_db, working = partial_db\<lparr>indexer_state := Some 3\<rparr>\<rparr>, ())
   \<and> pool_liquidity_events demo_db = []
   \<and> pool_liquidity_events (partial_db\<lparr>indexer_state := Some 3\<rparr>)
       = [liquidity_values ''0xAb'' ''ADD'' (hd (ch_Mint demo_chain ''0xAb'')) 1700000020]
   \<and> committed (update_last_block
        \<lparr>committed = demo_db, working = partial_db\<lparr>indexer_state := Some 3\<rparr>\<rparr> 12) = partial_db"
  using failed_pool_rows_persist [where r = stalling_node and c = "connect demo_db"
      and pool = "''0xAb''" and from_block = 3 and to_block = 12 and w = "()" and e = RPCError
      and c' = "\<lparr>committed = demo_db, working = partial_db\<lparr>indexer_state := Some 3\<rparr>\<rparr>"
      and w' = "()" and b = 12] stalling_call
  by (simp add: partial_db_def demo_db_def empty_tables_def demo_chain_def liquidity_values_def
      lower_0xAb str_demo)

subsection \<open>Re-indexing of the checkpoint block\<close>

lemma records_grow:
  "records_event r T q0 x0 row \<Longrightarrow> index_pool_events r c q s e w = (x, c', w')
     \<Longrightarrow> \<exists>ls. T (working c') = T (working c) @ ls"
  unfolding records_event_def by blast

lemma records_hit:
  "records_event r T q0 x0 row \<Longrightarrow> index_pool_events r c q0 s e w = (x, c', w')
     \<Longrightarrow> s \<le> x0 \<Longrightarrow> x0 \<le> e \<Longrightarrow> \<exists>ls. T (working c') = T (working c) @ ls \<and> row \<in> set ls"
  unfolding records_event_def by blast

lemma records_checkpoint:
  "records_event r T q0 x0 row \<Longrightarrow> T (t\<lparr>indexer_state := b\<rparr>) = T t"
  unfolding records_event_def by blast

lemma index_pools_grow:
  assumes re: "records_event r T q0 x0 row"
  shows "index_pools r pools s e c w = (c', w') \<Longrightarrow> \<exists>ls. T (working c') = T (working c) @ ls"
proof (induction pools arbitrary: c w)
  case Nil
  then show ?case by simp
next
  case (Cons q pools)
  obtain x c1 w1 where ip: "index_pool_events r c q s e w = (x, c1, w1)"
    by (metis prod_cases3)
  with Cons.prems have rest: "index_pools r pools s e c1 w1 = (c', w')" by simp
  from records_grow [OF re ip] obtain l1 where "T (working c1) = T (working c) @ l1" ..
  moreover from Cons.IH [OF rest] obtain l2 where "T (working c') = T (working c1) @ l2" ..
  ultimately show ?case by simp
qed

lemma index_pools_hit:
  assumes re: "records_event r T q0 x0 row"
    and range: "s \<le> x0" "x0 \<le> e"
  shows "q0 \<in> set pools \<Longrightarrow> index_pools r pools s e c w = (c', w')
     \<Longrightarrow> \<exists>ls. T (working c') = T (working c) @ ls \<and> row \<in> set ls"
proof (induction pools arbitrary: c w)
  case Nil
  then show ?case by simp
next
  case (Cons q pools)
  obtain x c1 w1 where ip: "index_pool_events r c q s e w = (x, c1, w1)"
    by (metis prod_cases3)
  with Cons.prems have rest: "index_pools r pools s e c1 w1 = (c', w')" by simp
  show ?case
  proof (cases "q = q0")
    case True
    from records_hit [OF re ip [unfolded True] range]
    obtain l1 where l1: "T (working c1) = T (working c) @ l1" "row \<in> set l1" by blast
    from index_pools_grow [OF re rest] obtain l2 where "T (working c') = T (working c1) @ l2" ..
    with l1 have "T (working c') = T (working c) @ (l1 @ l2) \<and> row \<in> set (l1 @ l2)" by simp
    then show ?thesis by blast
  next
    case False
    with Cons.prems(1) have "q0 \<in> set pools" by simp
    from Cons.IH [OF this rest]
    obtain l2 where l2: "T (working c') = T (working c1) @ l2" "row \<in> set l2" by blast
    from records_grow [OF re ip] obtain l1 where "T (working c1) = T (working c) @ l1" ..
    with l2 have "T (working c') = T (working c) @ (l1 @ l2) \<and> row \<in> set (l1 @ l2)" by simp
    then show ?thesis by blast
  qed
qed

lemma process_window_grow:
  assumes re: "records_event r T q0 x0 row"
    and pw: "process_window r pools cur start c w = (c', w')"
  shows "\<exists>ls. T (working c') = T (working c) @ ls"
proof -
  obtain c1 w1 where ip: "index_pools r pools start (min (start + step - 1) cur) c w = (c1, w1)"
    by (cases "index_pools r pools start (min (start + step - 1) cur) c w")
  with pw have c': "c' = update_last_block c1 (min (start + step - 1) cur)"
    by (simp add: process_window_def Let_def)
  have "T (working c') = T (working c1)"
    unfolding c' update_last_block_def commit_def set_last_block_def
    by (simp add: records_checkpoint [OF re])
  with index_pools_grow [OF re ip] show ?thesis by simp
qed

lemma process_window_hit:
  assumes re: "records_event r T q0 x0 row"
    and pw: "process_window r pools cur start c w = (c', w')"
    and q0: "q0 \<in> set pools"
    and range: "start \<le> x0" "x0 \<le> min (start + step - 1) cur"
  shows "\<exists>ls. T (working c') = T (working c) @ ls \<and> row \<in> set ls"
proof -
  obtain c1 w1 where ip: "index_pools r pools start (min (start + step - 1) cur) c w = (c1, w1)"
    by (cases "index_pools r pools start (min (start + step - 1) cur) c w")
  with pw have c': "c' = update_last_block c1 (min (start + step - 1) cur)"
    by (simp add: process_window_def Let_def)
  have "T (working c') = T (working c1)"
    unfolding c' update_last_block_def commit_def set_last_block_def
    by (simp add: records_checkpoint [OF re])
  with index_pools_hit [OF re range q0 ip] show ?thesis by simp
qed

lemma scan_windows_grow:
  "records_event r T q0 x0 row \<Longrightarrow> scan_windows r pools cur start c w = (c', w')
     \<Longrightarrow> \<exists>ls. T (working c') = T (working c) @ ls"
proof (induction r pools cur start c w arbitrary: c' w' rule: scan_windows.induct)
  case (1 r pools cur start c w)
  note re = "1.prems"(1) and res = "1.prems"(2)
  show ?case
  proof (cases "start < cur + 1")
    case False
    with res have "c' = c" by (simp add: scan_windows.simps [of r pools cur start])
    then show ?thesis by simp
  next
    case True
    obtain c1 w1 where pw: "process_window r pools cur start c w = (c1, w1)"
      by (cases "process_window r pools cur start c w")
    from res pw True have sc: "scan_windows r pools cur (start + step) c1 w1 = (c', w')"
      by (simp add: scan_windows.simps [of r pools cur start])
    from process_window_grow [OF re pw] obtain l1 where "T (working c1) = T (working c) @ l1" ..
    moreover from "1.IH" [OF True pw [symmetric] re sc]
    obtain l2 where "T (working c') = T (working c1) @ l2" ..
    ultimately show ?thesis by simp
  qed
qed

lemma scan_windows_hit:
  "records_event r T q0 x0 row \<Longrightarrow> q0 \<in> set pools \<Longrightarrow> start \<le> x0 \<Longrightarrow> x0 \<le> cur \<Longrightarrow>
   scan_windows r pools cur start c w = (c', w')
     \<Longrightarrow> \<exists>ls. T (working c') = T (working c) @ ls \<and> row \<in> set ls"
proof (induction r pools cur start c w arbitrary: c' w' rule: scan_windows.induct)
  case (1 r pools cur start c w)
  note re = "1.prems"(1) and q0 = "1.prems"(2) and lo = "1.prems"(3) and hi = "1.prems"(4)
    and res = "1.prems"(5)
  from lo hi have True: "start < cur + 1" by simp
  obtain c1 w1 where pw: "process_window r pools cur start c w = (c1, w1)"
    by (cases "process_window r pools cur start c w")
  from res pw True have sc: "scan_windows r pools cur (start + step) c1 w1 = (c', w')"
    by (simp add: scan_windows.simps [of r pools cur start])
  show ?case
  proof (cases "x0 \<le> min (start + step - 1) cur")
    case True
    from process_window_hit [OF re pw q0 lo True]
    obtain l1 where l1: "T (working c1) = T (working c) @ l1" "row \<in> set l1" by blast
    from scan_windows_grow [OF re sc] obtain l2 where "T (working c') = T (working c1) @ l2" ..
    with l1 have "T (working c') = T (working c) @ (l1 @ l2) \<and> row \<in> set (l1 @ l2)" by simp
    then show ?thesis by blast
  next
    case False
    with hi have lo': "start + step \<le> x0" by simp
    from "1.IH" [OF \<open>start < cur + 1\<close> pw [symmetric] re q0 lo' hi sc]
    obtain l2 where l2: "T (working c') = T (working c1) @ l2" "row \<in> set l2" by blast
    from process_window_grow [OF re pw] obtain l1 where "T (working c1) = T (working c) @ l1" ..
    with l2 have "T (working c') = T (working c) @ (l1 @ l2) \<and> row \<in> set (l1 @ l2)" by simp
    then show ?thesis by blast
  qed
qed

lemma static_node_simps:
  "eth_block_number (static_node ch) w = (Inr (ch_head ch), w)"
  "get_block_timestamp (static_node ch) b w = (Inr (ch_timestamp ch b), w)"
  "get_logs_Mint (static_node ch) p s e w = (Inr (filter (in_range s e) (ch_Mint ch p)), w)"
  "get_logs_Burn (static_node ch) p s e w = (Inr (filter (in_range s e) (ch_Burn ch p)), w)"
  "get_logs_Swap (static_node ch) p s e w = (Inr (filter (in_range s e) (ch_Swap ch p)), w)"
  "get_logs_Claim (static_node ch) p s e w = (Inr (filter (in_range s e) (ch_Claim ch p)), w)"
  "to_checksum_address (static_node ch) = ch_checksum ch"
  by (simp_all add: static_node_def get_block_timestamp_def)

lemma for_each_event_static:
  "for_each_event (static_node ch) ins evs c w
     = (None, foldl (\<lambda>c0 ev. ins ev (ch_timestamp ch (blockNumber ev)) c0) c evs, w)"
  by (induction evs arbitrary: c) (simp_all add: static_node_simps)

lemma index_pool_events_static:
  assumes "ch_checksum ch q = Inr p"
  shows "index_pool_events (static_node ch) c q s e w =
    (None,
     commit
       (foldl (\<lambda>c0 ev. insert_claim q ev (ch_timestamp ch (blockNumber ev)) c0)
         (foldl (\<lambda>c0 ev. insert_swap q ev (ch_timestamp ch (blockNumber ev)) c0)
           (foldl (\<lambda>c0 ev. insert_liquidity q ''REMOVE'' ev (ch_timestamp ch (blockNumber ev)) c0)
             (foldl (\<lambda>c0 ev. insert_liquidity q ''ADD'' ev (ch_timestamp ch (blockNumber ev)) c0) c
                (filter (in_range s e) (ch_Mint ch p)))
             (filter (in_range s e) (ch_Burn ch p)))
           (filter (in_range s e) (ch_Swap ch p)))
         (filter (in_range s e) (ch_Claim ch p))),
     w)"
  using assms
  by (simp add: index_pool_events_def index_kind_def static_node_simps for_each_event_static)

lemma fold_insert_liquidity:
  "pool_liquidity_events (working (foldl (\<lambda>c0 ev. insert_liquidity q k ev (f ev) c0) c evs))
     = pool_liquidity_events (working c) @ map (\<lambda>ev. liquidity_values q k ev (f ev)) evs"
  "pool_swaps (working (foldl (\<lambda>c0 ev. insert_liquidity q k ev (f ev) c0) c evs))
     = pool_swaps (working c)"
  "pool_fee_claims (working (foldl (\<lambda>c0 ev. insert_liquidity q k ev (f ev) c0) c evs))
     = pool_fee_claims (working c)"
  by (induction evs arbitrary: c) (simp_all add: insert_liquidity_def)

lemma fold_insert_swap:
  "pool_swaps (working (foldl (\<lambda>c0 ev. insert_swap q ev (f ev) c0) c evs))
     = pool_swaps (working c) @ map (\<lambda>ev. swap_values q ev (f ev)) evs"
  "pool_liquidity_events (working (foldl (\<lambda>c0 ev. insert_swap q ev (f ev) c0) c evs))
     = pool_liquidity_events (working c)"
  "pool_fee_claims (working (foldl (\<lambda>c0 ev. insert_swap q ev (f ev) c0) c evs))
     = pool_fee_claims (working c)"
  by (induction evs arbitrary: c) (simp_all add: insert_swap_def)

lemma fold_insert_claim:
  "pool_fee_claims (working (foldl (\<lambda>c0 ev. insert_claim q ev (f ev) c0) c evs))
     = pool_fee_claims (working c) @ map (\<lambda>ev. claim_values q ev (f ev)) evs"
  "pool_liquidity_events (working (foldl (\<lambda>c0 ev. insert_claim q ev (f ev) c0) c evs))
     = pool_liquidity_events (working c)"
  "pool_swaps (working (foldl (\<lambda>c0 ev. insert_claim q ev (f ev) c0) c evs))
     = pool_swaps (working c)"
  by (induction evs arbitrary: c) (simp_all add: insert_claim_def)

lemmas fold_tables =
  working_commit fold_insert_liquidity fold_insert_swap fold_insert_claim

lemma grows_liquidity:
  "index_pool_events r c q s e w = (x, c', w') \<Longrightarrow>
     \<exists>ls. pool_liquidity_events (working c') = pool_liquidity_events (working c) @ ls"
  using index_pool_events_grows [of r c q s e w x c' w'] by (simp add: grows_def)

lemma grows_swaps:
  "index_pool_events r c q s e w = (x, c', w') \<Longrightarrow>
     \<exists>ls. pool_swaps (working c') = pool_swaps (working c) @ ls"
  using index_pool_events_grows [of r c q s e w x c' w'] by (simp add: grows_def)

lemma grows_claims:
  "index_pool_events r c q s e w = (x, c', w') \<Longrightarrow>
     \<exists>ls. pool_fee_claims (working c') = pool_fee_claims (working c) @ ls"
  using index_pool_events_grows [of r c q s e w x c' w'] by (simp add: grows_def)

lemma records_Mint:
  assumes "ch_checksum ch q0 = Inr p" and "ev \<in> set (ch_Mint ch p)"
  shows "records_event (static_node ch) pool_liquidity_events q0 (blockNumber ev)
           (liquidity_values q0 ''ADD'' ev (ch_timestamp ch (blockNumber ev)))"
  unfolding records_event_def
proof (intro conjI allI impI)
  fix c q s e w x c' w'
  assume "index_pool_events (static_node ch) c q s e w = (x, c', w')"
  then show "\<exists>ls. pool_liquidity_events (working c') = pool_liquidity_events (working c) @ ls"
    by (rule grows_liquidity)
next
  fix c s e w x c' w'
  assume res: "index_pool_events (static_node ch) c q0 s e w = (x, c', w')"
    and "s \<le> blockNumber ev" "blockNumber ev \<le> e"
  then have "ev \<in> set (filter (in_range s e) (ch_Mint ch p))"
    using assms(2) by (simp add: in_range_def)
  then show "\<exists>ls. pool_liquidity_events (working c') = pool_liquidity_events (working c) @ ls
      \<and> liquidity_values q0 ''ADD'' ev (ch_timestamp ch (blockNumber ev)) \<in> set ls"
    using res by (auto simp: index_pool_events_static [OF assms(1)] fold_tables)
qed simp

lemma records_Burn:
  assumes "ch_checksum ch q0 = Inr p" and "ev \<in> set (ch_Burn ch p)"
  shows "records_event (static_node ch) pool_liquidity_events q0 (blockNumber ev)
           (liquidity_values q0 ''REMOVE'' ev (ch_timestamp ch (blockNumber ev)))"
  unfolding records_event_def
proof (intro conjI allI impI)
  fix c q s e w x c' w'
  assume "index_pool_events (static_node ch) c q s e w = (x, c', w')"
  then show "\<exists>ls. pool_liquidity_events (working c') = pool_liquidity_events (working c) @ ls"
    by (rule grows_liquidity)
next
  fix c s e w x c' w'
  assume res: "index_pool_events (static_node ch) c q0 s e w = (x, c', w')"
    and "s \<le> blockNumber ev" "blockNumber ev \<le> e"
  then have "ev \<in> set (filter (in_range s e) (ch_Burn ch p))"
    using assms(2) by (simp add: in_range_def)
  then show "\<exists>ls. pool_liquidity_events (working c') = pool_liquidity_events (working c) @ ls
      \<and> liquidity_values q0 ''REMOVE'' ev (ch_timestamp ch (blockNumber ev)) \<in> set ls"
    using res by (auto simp: index_pool_events_static [OF assms(1)] fold_tables)
qed simp

lemma records_Swap:
  assumes "ch_checksum ch q0 = Inr p" and "ev \<in> set (ch_Swap ch p)"
  shows "records_event (static_node ch) pool_swaps q0 (blockNumber ev)
           (swap_values q0 ev (ch_timestamp ch (blockNumber ev)))"
  unfolding records_event_def
proof (intro conjI allI impI)
  fix c q s e w x c' w'
  assume "index_pool_events (static_node ch) c q s e w = (x, c', w')"
  then show "\<exists>ls. pool_swaps (working c') = pool_swaps (working c) @ ls"
    by (rule grows_swaps)
next
  fix c s e w x c' w'
  assume res: "index_pool_events (static_node ch) c q0 s e w = (x, c', w')"
    and "s \<le> blockNumber ev" "blockNumber ev \<le> e"
  then have "ev \<in> set (filter (in_range s e) (ch_Swap ch p))"
    using assms(2) by (simp add: in_range_def)
  then show "\<exists>ls. pool_swaps (working c') = pool_swaps (working c) @ ls
      \<and> swap_values q0 ev (ch_timestamp ch (blockNumber ev)) \<in> set ls"
    using res by (auto simp: index_pool_events_static [OF assms(1)] fold_tables)
qed simp

lemma records_Claim:
  assumes "ch_checksum ch q0 = Inr p" and "ev \<in> set (ch_Claim ch p)"
  shows "records_event (static_node ch) pool_fee_claims q0 (blockNumber ev)
           (claim_values q0 ev (ch_timestamp ch (blockNumber ev)))"
  unfolding records_event_def
proof (intro conjI allI impI)
  fix c q s e w x c' w'
  assume "index_pool_events (static_node ch) c q s e w = (x, c', w')"
  then show "\<exists>ls. pool_fee_claims (working c') = pool_fee_claims (working c) @ ls"
    by (rule grows_claims)
next
  fix c s e w x c' w'
  assume res: "index_pool_events (static_node ch) c q0 s e w = (x, c', w')"
    and "s \<le> blockNumber ev" "blockNumber ev \<le> e"
  then have "ev \<in> set (filter (in_range s e) (ch_Claim ch p))"
    using assms(2) by (simp add: in_range_def)
  then show "\<exists>ls. pool_fee_claims (working c') = pool_fee_claims (working c) @ ls
      \<and> claim_values q0 ev (ch_timestamp ch (blockNumber ev)) \<in> set ls"
    using res by (auto simp: index_pool_events_static [OF assms(1)] fold_tables)
qed simp

lemma first_window_at_checkpoint:
  assumes "indexer_state db = Some b"
    and "eth_block_number r w0 = (Inr cur, w1)"
    and "eth_block_number r w1 = (Inr h, w2)"
    and "b < cur"
  shows "main r pools db w0 =
     (case process_window r (pools_of pools) cur b (connect db) w2 of
        (c1, w3) \<Rightarrow>
          (case scan_windows r (pools_of pools) cur (b + step) c1 w3 of
             (c2, w4) \<Rightarrow> (None, close c2, w4)))"
  using assms(2,3,4)
  by (simp add: main_stored [OF assms(1)] scan_windows.simps [of r _ cur b] close_def
      split: prod.splits)

lemma run_at_scan:
  assumes "indexer_state db = Some b" and "b < h"
  shows "\<exists>c2. scan_windows (static_node (ch\<lparr>ch_head := h\<rparr>)) pools h b (connect db) () = (c2, ())
     \<and> run_at ch h pools db = committed c2 \<and> working c2 = committed c2
     \<and> indexer_state (committed c2) = Some h"
proof -
  obtain c2 u where sc: "scan_windows (static_node (ch\<lparr>ch_head := h\<rparr>)) pools h b (connect db) () = (c2, u)"
    by (cases "scan_windows (static_node (ch\<lparr>ch_head := h\<rparr>)) pools h b (connect db) ()")
  have "run_at ch h pools db = committed c2"
    using assms(2) sc
    by (simp add: run_at_def main_stored [OF assms(1)] static_node_simps)
  moreover have "indexer_state (committed c2) = Some h \<and> working c2 = committed c2"
    using scan_windows_checkpoint [OF _ sc] assms(2) by simp
  ultimately show ?thesis using sc by simp
qed

lemma run_at_hit:
  assumes re: "records_event (static_node (ch\<lparr>ch_head := h\<rparr>)) T q0 x0 row"
    and db: "indexer_state db = Some b" and bh: "b < h"
    and q0: "q0 \<in> set pools" and range: "b \<le> x0" "x0 \<le> h"
  shows "\<exists>ls. T (run_at ch h pools db) = T db @ ls \<and> row \<in> set ls"
proof -
  from run_at_scan [OF db bh] obtain c2
    where sc: "scan_windows (static_node (ch\<lparr>ch_head := h\<rparr>)) pools h b (connect db) () = (c2, ())"
      and run: "run_at ch h pools db = committed c2" and wc: "working c2 = committed c2"
    by blast
  from scan_windows_hit [OF re q0 range sc]
  obtain ls where "T (working c2) = T (working (connect db)) @ ls" "row \<in> set ls" by blast
  then show ?thesis using run wc by (auto simp: connect_def)
qed

lemma run_at_checkpoint:
  assumes "indexer_state db = Some b" and "b < h"
  shows "indexer_state (run_at ch h pools db) = Some h"
  using run_at_scan [OF assms, of ch pools] by auto

lemma count_list_member: "x \<in> set xs \<Longrightarrow> 1 \<le> count_list xs x"
  by (metis count_list_0_iff less_one not_le)

lemma indexed_twice:
  assumes re: "\<And>h. records_event (static_node (ch\<lparr>ch_head := h\<rparr>)) T q0 h1 row"
    and db: "indexer_state db = Some b" and bh: "b < h1" and hh: "h1 < h2"
    and q0: "q0 \<in> set pools"
  shows "count_list (T db) row + 2 \<le> count_list (T (run_at ch h2 pools (run_at ch h1 pools db))) row"
proof -
  from run_at_hit [OF re db bh q0] bh
  obtain l1 where l1: "T (run_at ch h1 pools db) = T db @ l1" "row \<in> set l1" by auto
  have cp: "indexer_state (run_at ch h1 pools db) = Some h1"
    by (rule run_at_checkpoint [OF db bh])
  from run_at_hit [OF re cp hh q0] hh
  obtain l2 where l2: "T (run_at ch h2 pools (run_at ch h1 pools db)) = T (run_at ch h1 pools db) @ l2"
    "row \<in> set l2" by auto
  from l1 l2 count_list_member [of row l1] count_list_member [of row l2]
  show ?thesis by simp
qed

text \<open>
  Claim C10. A run that finds the head above the stored checkpoint \<open>b\<close> processes as its
  first window the one that starts at \<open>b\<close> itself, so block \<open>b\<close> is fetched again. For
  two consecutive runs against a node serving a fixed history, with heads
  \<open>h1 < h2\<close>: the first run leaves the checkpoint at \<open>h1\<close>, and every Mint, Burn,
  Swap and Claim log of block \<open>h1\<close> of a tracked pool has its row in the table at least
  twice more than before the two runs.
\<close>

theorem checkpoint_block_indexed_twice:
  "(indexer_state db = Some b \<and> eth_block_number r w0 = (Inr cur, w1)
      \<and> eth_block_number r w1 = (Inr h, w2) \<and> b < cur \<longrightarrow>
      main r pools_arg db w0 =
        (case process_window r (pools_of pools_arg) cur b (connect db) w2 of
           (c1, w3) \<Rightarrow>
             (case scan_windows r (pools_of pools_arg) cur (b + step) c1 w3 of
                (c2, w4) \<Rightarrow> (None, close c2, w4))))
   \<and> (indexer_state db = Some b \<and> b < h1 \<and> h1 < h2 \<and> q \<in> set pools \<and> ch_checksum ch q = Inr p \<longrightarrow>
        indexer_state (run_at ch h1 pools db) = Some h1
      \<and> (\<forall>ev \<in> set (ch_Mint ch p). blockNumber ev = h1 \<longrightarrow>
            count_list (pool_liquidity_events db) (liquidity_values q ''ADD'' ev (ch_timestamp ch h1)) + 2
              \<le> count_list (pool_liquidity_events (run_at ch h2 pools (run_at ch h1 pools db)))
                   (liquidity_values q ''ADD'' ev (ch_timestamp ch h1)))
      \<and> (\<forall>ev \<in> set (ch_Burn ch p). blockNumber ev = h1 \<longrightarrow>
            count_list (pool_liquidity_events db) (liquidity_values q ''REMOVE'' ev (ch_timestamp ch h1)) + 2
              \<le> count_list (pool_liquidity_events (run_at ch h2 pools (run_at ch h1 pools db)))
                   (liquidity_values q ''REMOVE'' ev (ch_timestamp ch h1)))
      \<and> (\<forall>ev \<in> set (ch_Swap ch p). blockNumber ev = h1 \<longrightarrow>
            count_list (pool_swaps db) (swap_values q ev (ch_timestamp ch h1)) + 2
              \<le> count_list (pool_swaps (run_at ch h2 pools (run_at ch h1 pools db)))
                   (swap_values q ev (ch_timestamp ch h1)))
      \<and> (\<forall>ev \<in> set (ch_Claim ch p). blockNumber ev = h1 \<longrightarrow>
            count_list (pool_fee_claims db) (claim_values q ev (ch_timestamp ch h1)) + 2
              \<le> count_list (pool_fee_claims (run_at ch h2 pools (run_at ch h1 pools db)))
                   (claim_values q ev (ch_timestamp ch h1))))"
proof (intro conjI impI ballI)
  assume "indexer_state db = Some b \<and> eth_block_number r w0 = (Inr cur, w1)
      \<and> eth_block_number r w1 = (Inr h, w2) \<and> b < cur"
  then show "main r pools_arg db w0 =
        (case process_window r (pools_of pools_arg) cur b (connect db) w2 of
           (c1, w3) \<Rightarrow>
             (case scan_windows r (pools_of pools_arg) cur (b + step) c1 w3 of
                (c2, w4) \<Rightarrow> (None, close c2, w4)))"
    using first_window_at_checkpoint [of db b r w0 cur w1 h w2 pools_arg] by simp
next
  assume a: "indexer_state db = Some b \<and> b < h1 \<and> h1 < h2 \<and> q \<in> set pools \<and> ch_checksum ch q = Inr p"
  then show "indexer_state (run_at ch h1 pools db) = Some h1"
    using run_at_checkpoint by blast
next
  fix ev
  assume a: "indexer_state db = Some b \<and> b < h1 \<and> h1 < h2 \<and> q \<in> set pools \<and> ch_checksum ch q = Inr p"
    and ev: "ev \<in> set (ch_Mint ch p)" "blockNumber ev = h1"
  have "records_event (static_node (ch\<lparr>ch_head := h\<rparr>)) pool_liquidity_events q h1
          (liquidity_values q ''ADD'' ev (ch_timestamp ch h1))" for h
    using records_Mint [of "ch\<lparr>ch_head := h\<rparr>" q p ev] a ev by simp
  then show "count_list (pool_liquidity_events db) (liquidity_values q ''ADD'' ev (ch_timestamp ch h1)) + 2
              \<le> count_list (pool_liquidity_events (run_at ch h2 pools (run_at ch h1 pools db)))
                   (liquidity_values q ''ADD'' ev (ch_timestamp ch h1))"
  proof (rule indexed_twice)
    show "indexer_state db = Some b" using a by simp
    show "b < h1" using a by simp
    show "h1 < h2" using a by simp
    show "q \<in> set pools" using a by simp
  qed
next
  fix ev
  assume a: "indexer_state db = Some b \<and> b < h1 \<and> h1 < h2 \<and> q \<in> set pools \<and> ch_checksum ch q = Inr p"
    and ev: "ev \<in> set (ch_Burn ch p)" "blockNumber ev = h1"
  have "records_event (static_node (ch\<lparr>ch_head := h\<rparr>)) pool_liquidity_events q h1
          (liquidity_values q ''REMOVE'' ev (ch_timestamp ch h1))" for h
    using records_Burn [of "ch\<lparr>ch_head := h\<rparr>" q p ev] a ev by simp
  then show "count_list (pool_liquidity_events db) (liquidity_values q ''REMOVE'' ev (ch_timestamp ch h1)) + 2
              \<le> count_list (pool_liquidity_events (run_at ch h2 pools (run_at ch h1 pools db)))
                   (liquidity_values q ''REMOVE'' ev (ch_timestamp ch h1))"
  proof (rule indexed_twice)
    show "indexer_state db = Some b" using a by simp
    show "b < h1" using a by simp
    show "h1 < h2" using a by simp
    show "q \<in> set pools" using a by simp
  qed
next
  fix ev
  assume a: "indexer_state db = Some b \<and> b < h1 \<and> h1 < h2 \<and> q \<in> set pools \<and> ch_checksum ch q = Inr p"
    and ev: "ev \<in> set (ch_Swap ch p)" "blockNumber ev = h1"
  have "records_event (static_node (ch\<lparr>ch_head := h\<rparr>)) pool_swaps q h1
          (swap_values q ev (ch_timestamp ch h1))" for h
    using records_Swap [of "ch\<lparr>ch_head := h\<rparr>" q p ev] a ev by simp
  then show "count_list (pool_swaps db) (swap_values q ev (ch_timestamp ch h1)) + 2
              \<le> count_list (pool_swaps (run_at ch h2 pools (run_at ch h1 pools db)))
                   (swap_values q ev (ch_timestamp ch h1))"
  proof (rule indexed_twice)
    show "indexer_state db = Some b" using a by simp
    show "b < h1" using a by simp
    show "h1 < h2" using a by simp
    show "q \<in> set pools" using a by simp
  qed
next
  fix ev
  assume a: "indexer_state db = Some b \<and> b < h1 \<and> h1 < h2 \<and> q \<in> set pools \<and> ch_checksum ch q = Inr p"
    and ev: "ev \<in> set (ch_Claim ch p)" "blockNumber ev = h1"
  have "records_event (static_node (ch\<lparr>ch_head := h\<rparr>)) pool_fee_claims q h1
          (claim_values q ev (ch_timestamp ch h1))" for h
    using records_Claim [of "ch\<lparr>ch_head := h\<rparr>" q p ev] a ev by simp
  then show "count_list (pool_fee_claims db) (claim_values q ev (ch_timestamp ch h1)) + 2
              \<le> count_list (pool_fee_claims (run_at ch h2 pools (run_at ch h1 pools db)))
                   (claim_values q ev (ch_timestamp ch h1))"
  proof (rule indexed_twice)
    show "indexer_state db = Some b" using a by simp
    show "b < h1" using a by simp
    show "h1 < h2" using a by simp
    show "q \<in> set pools" using a by simp
  qed
qed

lemma demo_run_12: "run_at demo_chain 12 [''0xAb''] demo_db = demo_db1"
  by (simp add: run_at_def demo_simps demo_db1_def)

lemma demo_run_14: "run_at demo_chain 14 [''0xAb''] demo_db1 = demo_db2"
  by (simp add: run_at_def demo_simps demo_db1_def demo_db2_def)

theorem checkpoint_block_indexed_twice_witness:
  "indexer_state demo_db = Some 3 \<and> (3::int) < 12 \<and> (12::int) < 14
   \<and> ''0xAb'' \<in> set [''0xAb''] \<and> ch_checksum demo_chain ''0xAb'' = Inr ''0xAb''
   \<and> last (ch_Mint demo_chain ''0xAb'') \<in> set (ch_Mint demo_chain ''0xAb'')
   \<and> blockNumber (last (ch_Mint demo_chain ''0xAb'')) = 12
   \<and> indexer_state (run_at demo_chain 12 [''0xAb''] demo_db) = Some 12
   \<and> count_list (pool_liquidity_events demo_db)
        (liquidity_values ''0xAb'' ''ADD'' (last (ch_Mint demo_chain ''0xAb'')) (ch_timestamp demo_chain 12)) = 0
   \<and> count_list (pool_liquidity_events (run_at demo_chain 14 [''0xAb''] (run_at demo_chain 12 [''0xAb''] demo_db)))
        (liquidity_values ''0xAb'' ''ADD'' (last (ch_Mint demo_chain ''0xAb'')) (ch_timestamp demo_chain 12)) = 2"
  using checkpoint_block_indexed_twice [where db = demo_db and b = 3 and ?h1.0 = 12 and ?h2.0 = 14
      and q = "''0xAb''" and pools = "[''0xAb'']" and ch = demo_chain and p = "''0xAb''"
      and r = "static_node demo_chain" and ?w0.0 = "()" and cur = 12 and ?w1.0 = "()" and h = 12
      and ?w2.0 = "()" and pools_arg = "Some [''0xAb'']"]
  unfolding demo_run_12 demo_run_14
  by (simp add: demo_db_def demo_db1_def demo_db2_def empty_tables_def demo_chain_def
      demo_checksum_def liquidity_values_def lower_0xAb str_demo)

section \<open>Properties of the reader\<close>

subsection \<open>Stored amounts\<close>

text \<open>\<^verbatim>\<open>int\<close> reads back what \<^verbatim>\<open>str\<close> wrote.\<close>

lemma digit_char:
  assumes "d < 10"
  shows "is_digit (char_of (48 + d))" "digit_value (char_of (48 + d)) = d"
    "\<not> is_space (char_of (48 + d))" "char_of (48 + d) \<noteq> CHR ''-''" "char_of (48 + d) \<noteq> CHR ''+''"
proof -
  have o: "(of_char (char_of (48 + d)) :: nat) = 48 + d" using assms by simp
  show "is_digit (char_of (48 + d))" "digit_value (char_of (48 + d)) = d"
    "\<not> is_space (char_of (48 + d))"
    using assms by (auto simp: is_digit_def digit_value_def is_space_def Let_def)
  show "char_of (48 + d) \<noteq> CHR ''-''"
  proof
    assume "char_of (48 + d) = CHR ''-''"
    then have "(of_char (char_of (48 + d)) :: nat) = of_char CHR ''-''" by simp
    with o show False by simp
  qed
  show "char_of (48 + d) \<noteq> CHR ''+''"
  proof
    assume "char_of (48 + d) = CHR ''+''"
    then have "(of_char (char_of (48 + d)) :: nat) = of_char CHR ''+''" by simp
    with o show False by simp
  qed
qed

lemma str_nat_digits: "list_all is_digit (str_nat n) \<and> str_nat n \<noteq> []"
proof (induction n rule: str_nat.induct)
  case (1 n)
  show ?case
  proof (cases "n < 10")
    case True
    then show ?thesis by (simp add: str_nat.simps [of n] digit_char)
  next
    case False
    then show ?thesis using 1 by (simp add: str_nat.simps [of n] digit_char)
  qed
qed

lemma digits_value_digits:
  "list_all is_digit ds \<Longrightarrow>
   digits_value acc ds = Some (foldl (\<lambda>a c. 10 * a + digit_value c) acc ds)"
  by (induction acc ds rule: digits_value.induct) simp_all

lemma str_nat_value: "foldl (\<lambda>a c. 10 * a + digit_value c) 0 (str_nat n) = n"
proof (induction n rule: str_nat.induct)
  case (1 n)
  show ?case
  proof (cases "n < 10")
    case True
    then show ?thesis by (simp add: str_nat.simps [of n] digit_char)
  next
    case False
    then show ?thesis using 1 by (simp add: str_nat.simps [of n] digit_char)
  qed
qed

lemma strip_digits:
  assumes "s \<noteq> []" "\<not> is_space (hd s)" "\<not> is_space (last s)"
  shows "strip s = s"
proof -
  have a: "dropWhile is_space s = s" using assms(1,2) by (cases s) simp_all
  have "rev s \<noteq> []" "\<not> is_space (hd (rev s))" using assms(1,3) by (simp_all add: hd_rev)
  then have b: "dropWhile is_space (rev s) = rev s" by (cases "rev s") simp_all
  show ?thesis by (simp add: strip_def a b)
qed

lemma str_nat_ends:
  "is_digit (hd (str_nat n)) \<and> is_digit (last (str_nat n))"
  using str_nat_digits [of n] by (cases "str_nat n") (auto simp: list_all_iff)

lemma digit_not_space: "is_digit c \<Longrightarrow> \<not> is_space c"
  by (auto simp: is_digit_def is_space_def Let_def)

lemma digit_not_sign: "is_digit c \<Longrightarrow> c \<noteq> CHR ''-'' \<and> c \<noteq> CHR ''+''"
  by (auto simp: is_digit_def Let_def)

lemma py_int_str_nat: "py_int (str_nat n) = Inr (int n)"
proof -
  obtain c cs where s: "str_nat n = c # cs" using str_nat_digits [of n] by (cases "str_nat n") auto
  have c: "is_digit c" using str_nat_ends [of n] s by simp
  have st: "strip (str_nat n) = str_nat n"
    using str_nat_digits [of n] str_nat_ends [of n] by (intro strip_digits) (simp_all add: digit_not_space)
  have v: "digits_value 0 (c # cs) = Some n"
    using digits_value_digits [of "str_nat n" 0] str_nat_digits [of n] str_nat_value [of n] s by simp
  have st': "strip (c # cs) = c # cs" using st by (simp add: s)
  show ?thesis
    using c digit_not_sign [OF c] v by (simp add: py_int_def st' s Let_def)
qed

lemma py_int_minus_str_nat: "py_int (CHR ''-'' # str_nat n) = Inr (- int n)"
proof -
  obtain c cs where s: "str_nat n = c # cs" using str_nat_digits [of n] by (cases "str_nat n") auto
  have c: "is_digit c" using str_nat_ends [of n] s by simp
  have sp: "\<not> is_space CHR ''-''" by (simp add: is_space_def)
  have st: "strip (CHR ''-'' # str_nat n) = CHR ''-'' # str_nat n"
    using str_nat_digits [of n] str_nat_ends [of n] sp by (intro strip_digits) (simp_all add: digit_not_space)
  have v: "digits_value 0 (c # cs) = Some n"
    using digits_value_digits [of "str_nat n" 0] str_nat_digits [of n] str_nat_value [of n] s by simp
  have st': "strip (CHR ''-'' # c # cs) = CHR ''-'' # c # cs" using st by (simp add: s)
  show ?thesis
    using c v by (simp add: py_int_def st' s Let_def)
qed

lemma py_int_str: "py_int (str i) = Inr i"
  by (simp add: str_def py_int_str_nat py_int_minus_str_nat)

lemma int_text_amount: "int_text s \<Longrightarrow> py_int s = Inr (amount s)"
  by (simp add: int_text_def amount_def split: sum.splits)

lemma int_text_str: "int_text (str i)"
  by (simp add: int_text_def py_int_str)

lemma amount_str: "amount (str i) = i"
  by (simp add: amount_def py_int_str)

subsection \<open>Queries\<close>

text \<open>
  Claim C8. For a token address (one \<^verbatim>\<open>to_checksum_address\<close> accepts): a first call
  queries the contract; a successful answer is cached and returned, a failed query caches
  and returns 18. Every call returns a value and leaves it cached. Once a value is cached,
  each later call returns it with the cache and the node untouched (no query, whatever the
  node would answer now), and calls for other tokens keep the entry.
\<close>

theorem decimals_resolver_caches_once:
  assumes "tk_to_checksum_address tr token = Inr addr"
  shows "(cache addr = None \<and> decimals_call tr addr w = (Inr d, w')
            \<longrightarrow> get_token_decimals tr token cache w = (Inr d, cache(addr \<mapsto> d), w'))
       \<and> (cache addr = None \<and> decimals_call tr addr w = (Inl e, w')
            \<longrightarrow> get_token_decimals tr token cache w = (Inr 18, cache(addr \<mapsto> 18), w'))
       \<and> (\<exists>v. fst (get_token_decimals tr token cache w) = Inr v
              \<and> fst (snd (get_token_decimals tr token cache w)) addr = Some v)
       \<and> (cache addr = Some v \<longrightarrow>
             get_token_decimals tr token cache w = (Inr v, cache, w)
           \<and> fst (snd (get_token_decimals tr token' cache w)) addr = Some v)"
  using assms
  by (auto simp: get_token_decimals_def split: sum.splits option.splits prod.splits)

theorem decimals_resolver_caches_once_witness:
  "tk_to_checksum_address flaky_token_rpc ''0x0a'' = Inr ''0x0a''
   \<and> (Map.empty :: decimals_cache) ''0x0a'' = None
   \<and> decimals_call flaky_token_rpc ''0x0a'' 0 = (Inl RPCError, 1)
   \<and> get_token_decimals flaky_token_rpc ''0x0a'' Map.empty 0 = (Inr 18, [''0x0a'' \<mapsto> 18], 1)
   \<and> decimals_call flaky_token_rpc ''0x0a'' 1 = (Inr 6, 2)
   \<and> get_token_decimals flaky_token_rpc ''0x0a'' [''0x0a'' \<mapsto> 18] 1
        = (Inr 18, [''0x0a'' \<mapsto> 18], 1)
   \<and> get_token_decimals flaky_token_rpc ''0x0b'' Map.empty 1 = (Inr 6, [''0x0b'' \<mapsto> 6], 2)"
  using decimals_resolver_caches_once [where tr = flaky_token_rpc and token = "''0x0a''"
      and addr = "''0x0a''" and cache = Map.empty and w = 0 and e = RPCError and w' = 1]
    decimals_resolver_caches_once [where tr = flaky_token_rpc and token = "''0x0a''"
      and addr = "''0x0a''" and cache = "[''0x0a'' \<mapsto> 18]" and w = 1 and v = 18]
    decimals_resolver_caches_once [where tr = flaky_token_rpc and token = "''0x0b''"
      and addr = "''0x0b''" and cache = Map.empty and w = 1 and d = 6 and w' = 2]
  by (simp add: flaky_token_rpc_def demo_checksum_def)

lemma replay_eq:
  "\<forall>r \<in> set rows. int_text (le_token0_amount r) \<and> int_text (le_token1_amount r)
       \<and> valid_datetime (le_block_time r) \<Longrightarrow>
   replay t0 t1 rows =
     Inr (map (\<lambda>i. \<lparr>lp_time = le_block_time (rows ! i),
                     token0_balance = t0 + sum_list (map signed_amount0 (take (Suc i) rows)),
                     token1_balance = t1 + sum_list (map signed_amount1 (take (Suc i) rows))\<rparr>)
              [0..<length rows])"
proof (induction rows arbitrary: t0 t1)
  case Nil
  then show ?case by simp
next
  case (Cons r rows)
  have p0: "py_int (le_token0_amount r) = Inr (amount (le_token0_amount r))"
    using Cons.prems by (simp add: int_text_amount)
  have p1: "py_int (le_token1_amount r) = Inr (amount (le_token1_amount r))"
    using Cons.prems by (simp add: int_text_amount)
  have v: "utcfromtimestamp (le_block_time r) = Inr (le_block_time r)"
    using Cons.prems by (simp add: utcfromtimestamp_def valid_datetime_def)
  have t0: "(if le_event_type r = ''ADD'' then t0 + amount (le_token0_amount r)
             else t0 - amount (le_token0_amount r))
      = t0 + signed_amount0 r" by (simp add: signed_amount0_def)
  have t1: "(if le_event_type r = ''ADD'' then t1 + amount (le_token1_amount r)
             else t1 - amount (le_token1_amount r))
      = t1 + signed_amount1 r" by (simp add: signed_amount1_def)
  have rest: "\<forall>r \<in> set rows. int_text (le_token0_amount r) \<and> int_text (le_token1_amount r)
       \<and> valid_datetime (le_block_time r)"
    using Cons.prems by simp
  show ?case
    unfolding replay.simps p0 p1 sum.case Let_def v t0 t1 Cons.IH [OF rest]
    by (simp add: map_upt_Suc add.assoc del: upt_Suc)
qed

lemma select_liquidity_sorted:
  "sorted (map le_block_time (select_liquidity db p s))"
  by (simp add: select_liquidity_def)

lemma select_liquidity_mset:
  "mset (select_liquidity db p s)
     = filter_mset (\<lambda>r. le_pool_address r = p \<and> s \<le> le_block_time r) (mset (pool_liquidity_events db))"
  by (simp add: select_liquidity_def)

lemma lower_0xab: "lower ''0xab'' = ''0xab''"
  by code_simp

lemma select_replay_db:
  "select_liquidity replay_db ''0xab'' 0 = [liq ''0xab'' ''ADD'' 100 1000 2000, liq ''0xab'' ''REMOVE'' 200 400 500]"
  by (simp add: select_liquidity_def replay_db_def empty_tables_def liq_def)

text \<open>
  Claim C3. \<open>get_liquidity_timeseries\<close> reads exactly the pool's liquidity rows of the
  window, in ascending \<open>block_time\<close>, and (all amounts being texts of integers, as the
  indexer writes them, and all block times valid datetimes) returns one point per row: the
  row's time with the running sums of the signed amounts, ADD counted positive and
  anything else negative, never clamped. On ADD at 100 of (1000, 2000) and REMOVE at 200
  of (400, 500) the result is [(100, 1000, 2000), (200, 600, 1500)]; a lone REMOVE gives
  negative balances.
\<close>

theorem liquidity_timeseries_replay:
  "sorted (map le_block_time (select_liquidity db (lower pool) (since_days clk days)))
   \<and> mset (select_liquidity db (lower pool) (since_days clk days))
       = filter_mset (\<lambda>r. le_pool_address r = lower pool \<and> since_days clk days \<le> le_block_time r)
           (mset (pool_liquidity_events db))
   \<and> ((\<forall>r \<in> set (select_liquidity db (lower pool) (since_days clk days)).
          int_text (le_token0_amount r) \<and> int_text (le_token1_amount r)
          \<and> valid_datetime (le_block_time r)) \<longrightarrow>
       get_liquidity_timeseries clk db pool days =
         Inr (map (\<lambda>i. \<lparr>lp_time = le_block_time (select_liquidity db (lower pool) (since_days clk days) ! i),
                token0_balance = sum_list (map signed_amount0
                   (take (Suc i) (select_liquidity db (lower pool) (since_days clk days)))),
                token1_balance = sum_list (map signed_amount1
                   (take (Suc i) (select_liquidity db (lower pool) (since_days clk days))))\<rparr>)
              [0..<length (select_liquidity db (lower pool) (since_days clk days))]))
   \<and> int_text (le_token0_amount (liquidity_values p kind ev ts))
   \<and> int_text (le_token1_amount (liquidity_values p kind ev ts))
   \<and> amount (le_token0_amount (liquidity_values p kind ev ts)) = la_amount0 (args ev)
   \<and> amount (le_token1_amount (liquidity_values p kind ev ts)) = la_amount1 (args ev)
   \<and> get_liquidity_timeseries epoch_clock replay_db ''0xab'' 7
       = Inr [\<lparr>lp_time = 100, token0_balance = 1000, token1_balance = 2000\<rparr>,
              \<lparr>lp_time = 200, token0_balance = 600, token1_balance = 1500\<rparr>]
   \<and> get_liquidity_timeseries epoch_clock remove_only_db ''0xab'' 7
       = Inr [\<lparr>lp_time = 200, token0_balance = - 400, token1_balance = - 500\<rparr>]"
proof -
  let ?rows = "select_liquidity db (lower pool) (since_days clk days)"
  have a: "sorted (map le_block_time ?rows)" by (rule select_liquidity_sorted)
  have b: "mset ?rows = filter_mset (\<lambda>r. le_pool_address r = lower pool \<and> since_days clk days \<le> le_block_time r)
           (mset (pool_liquidity_events db))" by (rule select_liquidity_mset)
  have c: "get_liquidity_timeseries clk db pool days =
         Inr (map (\<lambda>i. \<lparr>lp_time = le_block_time (?rows ! i),
                token0_balance = sum_list (map signed_amount0 (take (Suc i) ?rows)),
                token1_balance = sum_list (map signed_amount1 (take (Suc i) ?rows))\<rparr>)
              [0..<length ?rows])"
    if "\<forall>r \<in> set ?rows. int_text (le_token0_amount r) \<and> int_text (le_token1_amount r)
          \<and> valid_datetime (le_block_time r)"
    using replay_eq [OF that, of 0 0]
    by (simp add: get_liquidity_timeseries_def Let_def)
  have w: "int_text (le_token0_amount (liquidity_values p kind ev ts))"
    "int_text (le_token1_amount (liquidity_values p kind ev ts))"
    "amount (le_token0_amount (liquidity_values p kind ev ts)) = la_amount0 (args ev)"
    "amount (le_token1_amount (liquidity_values p kind ev ts)) = la_amount1 (args ev)"
    by (simp_all add: liquidity_values_def int_text_str amount_str)
  have d: "get_liquidity_timeseries epoch_clock replay_db ''0xab'' 7
       = Inr [\<lparr>lp_time = 100, token0_balance = 1000, token1_balance = 2000\<rparr>,
              \<lparr>lp_time = 200, token0_balance = 600, token1_balance = 1500\<rparr>]"
    by (simp add: get_liquidity_timeseries_def Let_def epoch_clock_def lower_0xab select_replay_db
        liq_def py_int_str utcfromtimestamp_def datetime_min_def datetime_max_def)
  have e: "get_liquidity_timeseries epoch_clock remove_only_db ''0xab'' 7
       = Inr [\<lparr>lp_time = 200, token0_balance = - 400, token1_balance = - 500\<rparr>]"
    by (simp add: get_liquidity_timeseries_def Let_def epoch_clock_def lower_0xab
        select_liquidity_def remove_only_db_def empty_tables_def
        liq_def py_int_str utcfromtimestamp_def datetime_min_def datetime_max_def)
  from a b c w d e show ?thesis by blast
qed

theorem liquidity_timeseries_replay_witness:
  "list_all (\<lambda>r. int_text (le_token0_amount r) \<and> int_text (le_token1_amount r)
                  \<and> valid_datetime (le_block_time r))
       (select_liquidity replay_db (lower ''0xab'') (since_days epoch_clock 7))
   \<and> get_liquidity_timeseries epoch_clock replay_db ''0xab'' 7
       = Inr [\<lparr>lp_time = 100, token0_balance = 1000, token1_balance = 2000\<rparr>,
              \<lparr>lp_time = 200, token0_balance = 600, token1_balance = 1500\<rparr>]"
  using liquidity_timeseries_replay [where db = replay_db and pool = "''0xab''" and clk = epoch_clock
      and days = 7]
  by (simp add: lower_0xab epoch_clock_def select_replay_db liq_def valid_datetime_def
      datetime_min_def datetime_max_def signed_amount0_def signed_amount1_def
      int_text_str amount_str)













end
